theory Spec2Isabelle
  imports Main "HOL-Library.Sublist"
begin

section \<open>Product codes and bar code symbols (productcode.py)\<close>

text \<open>
  A shallow embedding of \<^verbatim>\<open>productcode.py\<close>. Python strings are \<open>string\<close>s, Python
  integers are \<open>int\<close>s, a raised exception is the left summand of a result, and the
  class-level list \<^verbatim>\<open>ProductCodeError.msgs\<close> is a state that is passed explicitly.
\<close>

subsection \<open>Bit tables and parity tables\<close>

definition UPCEBITS :: "(char \<times> string) list list" where
  "UPCEBITS =
    [[(CHR ''O'', ''0001101''), (CHR ''E'', ''0100111'')],
     [(CHR ''O'', ''0011001''), (CHR ''E'', ''0110011'')],
     [(CHR ''O'', ''0010011''), (CHR ''E'', ''0011011'')],
     [(CHR ''O'', ''0111101''), (CHR ''E'', ''0100001'')],
     [(CHR ''O'', ''0100011''), (CHR ''E'', ''0011101'')],
     [(CHR ''O'', ''0110001''), (CHR ''E'', ''0111001'')],
     [(CHR ''O'', ''0101111''), (CHR ''E'', ''0000101'')],
     [(CHR ''O'', ''0111011''), (CHR ''E'', ''0010001'')],
     [(CHR ''O'', ''0110111''), (CHR ''E'', ''0001001'')],
     [(CHR ''O'', ''0001011''), (CHR ''E'', ''0010111'')]]"

definition UPC5BITS :: "(char \<times> string) list list" where
  "UPC5BITS = UPCEBITS"

definition UPC5PARITY :: "string list" where
  "UPC5PARITY = [''EEOOO'', ''EOEOO'', ''EOOEO'', ''EOOOE'', ''OEEOO'',
                 ''OOEEO'', ''OOOEE'', ''OEOEO'', ''OEOOE'', ''OOEOE'']"

definition EAN13BITS :: "(char \<times> string) list list" where
  "EAN13BITS =
    [[(CHR ''A'', ''0001101''), (CHR ''B'', ''0100111''), (CHR ''C'', ''1110010'')],
     [(CHR ''A'', ''0011001''), (CHR ''B'', ''0110011''), (CHR ''C'', ''1100110'')],
     [(CHR ''A'', ''0010011''), (CHR ''B'', ''0011011''), (CHR ''C'', ''1101100'')],
     [(CHR ''A'', ''0111101''), (CHR ''B'', ''0100001''), (CHR ''C'', ''1000010'')],
     [(CHR ''A'', ''0100011''), (CHR ''B'', ''0011101''), (CHR ''C'', ''1011100'')],
     [(CHR ''A'', ''0110001''), (CHR ''B'', ''0111001''), (CHR ''C'', ''1001110'')],
     [(CHR ''A'', ''0101111''), (CHR ''B'', ''0000101''), (CHR ''C'', ''1010000'')],
     [(CHR ''A'', ''0111011''), (CHR ''B'', ''0010001''), (CHR ''C'', ''1000100'')],
     [(CHR ''A'', ''0110111''), (CHR ''B'', ''0001001''), (CHR ''C'', ''1001000'')],
     [(CHR ''A'', ''0001011''), (CHR ''B'', ''0010111''), (CHR ''C'', ''1110100'')]]"

definition EAN13PARITY :: "string list" where
  "EAN13PARITY = map (\<lambda>x. x @ ''CCCCCC'')
     [''AAAAAA'', ''AABABB'', ''AABBAB'', ''AABBBA'', ''ABAABB'',
      ''ABBAAB'', ''ABBBAA'', ''ABABAB'', ''ABABBA'', ''ABBABA'']"

subsection \<open>Exceptions\<close>

text \<open>
  The text of a \<^verbatim>\<open>ProductCodeError\<close>. Every message of the source is a literal string
  with the code type filled in, except \<^verbatim>\<open>"%s: %s invalid here" % (self.type, m)\<close>, whose
  second part is Python's rendering of the \<^verbatim>\<open>KeyError\<close> for the offending character;
  that message keeps the type and the character.
\<close>

datatype msg = Text string | InvalidHere string char

text \<open>
  The exceptions that can leave the functions below. \<open>ProductCodeError None\<close> is
  \<^verbatim>\<open>ProductCodeError()\<close>, raised without a message.
\<close>

datatype error = ProductCodeError "msg option" | IndexError | KeyError char | TypeError

text \<open>\<^verbatim>\<open>if msg:\<close> in \<^verbatim>\<open>ProductCodeError.__init__\<close>: \<^verbatim>\<open>None\<close> and the empty string are false.\<close>

fun truthy :: "msg option \<Rightarrow> bool" where
  "truthy None = False"
| "truthy (Some (Text t)) = (t \<noteq> [])"
| "truthy (Some (InvalidHere ty c)) = True"

text \<open>
  \<^verbatim>\<open>ProductCodeError.__init__\<close> acting on the class attribute \<^verbatim>\<open>msgs\<close>, the one list
  shared by every instance: the message is appended to it.
\<close>

definition ProductCodeError_init :: "msg option \<Rightarrow> msg list \<Rightarrow> msg list" where
  "ProductCodeError_init m msgs = (if truthy m then msgs @ [the m] else msgs)"

text \<open>\<^verbatim>\<open>"\n".join(xs)\<close>\<close>

fun join_lines :: "string list \<Rightarrow> string" where
  "join_lines [] = []"
| "join_lines [x] = x"
| "join_lines (x # y # ys) = x @ [CHR 0x0A] @ join_lines (y # ys)"

text \<open>
  The text of one message; \<open>repr\<close> stands for Python's rendering of the \<^verbatim>\<open>KeyError\<close>
  of a one-character key.
\<close>

fun msg_text :: "(char \<Rightarrow> string) \<Rightarrow> msg \<Rightarrow> string" where
  "msg_text repr (Text t) = t"
| "msg_text repr (InvalidHere ty c) = ty @ '': '' @ repr c @ '' invalid here''"

text \<open>\<^verbatim>\<open>ProductCodeError.__str__\<close>: it reads the shared list, whatever instance it is called on.\<close>

definition ProductCodeError_str :: "(char \<Rightarrow> string) \<Rightarrow> msg list \<Rightarrow> string" where
  "ProductCodeError_str repr msgs = join_lines (map (msg_text repr) msgs)"

text \<open>
  What raising the exception of a result does to the shared list. Every constructor below
  executes at most one \<^verbatim>\<open>raise ProductCodeError(msg)\<close> and catches none, so the result
  \<open>Inl (ProductCodeError m)\<close> stands for exactly one call of \<^verbatim>\<open>__init__\<close> with \<open>m\<close>.
\<close>

fun raised :: "error + 'a \<Rightarrow> msg list \<Rightarrow> msg list" where
  "raised (Inl (ProductCodeError m)) msgs = ProductCodeError_init m msgs"
| "raised r msgs = msgs"

subsection \<open>Character maps and parse\<close>

text \<open>A value of a character map: an integer, \<^verbatim>\<open>None\<close> (the wildcard) or a separator string.\<close>

datatype mapval = IntV int | NoneV | StrV string

text \<open>
  \<^verbatim>\<open>makeCharMap(*dicts)\<close>. A dictionary is an association list read with \<open>map_of\<close>, which
  takes the first entry of a key; a later dictionary overrides an earlier one, so it
  comes first.
\<close>

definition digitMap :: "(char \<times> mapval) list" where
  "digitMap = [(CHR ''0'', IntV 0), (CHR ''1'', IntV 1), (CHR ''2'', IntV 2),
               (CHR ''3'', IntV 3), (CHR ''4'', IntV 4), (CHR ''5'', IntV 5),
               (CHR ''6'', IntV 6), (CHR ''7'', IntV 7), (CHR ''8'', IntV 8),
               (CHR ''9'', IntV 9)]"

definition makeCharMap :: "(char \<times> mapval) list list \<Rightarrow> (char \<times> mapval) list" where
  "makeCharMap dicts = concat (rev dicts) @ digitMap"

text \<open>\<^verbatim>\<open>if type(d)==int or d==None: digits.append(d)\<close>\<close>

fun keep :: "mapval \<Rightarrow> int option list" where
  "keep (IntV i) = [Some i]"
| "keep NoneV = [None]"
| "keep (StrV t) = []"

datatype parse_error = ParseKeyError char | ParseIndexError

text \<open>The loop over \<^verbatim>\<open>s[1:-1]\<close>; a character absent from the map raises \<^verbatim>\<open>KeyError\<close>.\<close>

fun parse_other :: "(char \<times> mapval) list \<Rightarrow> string \<Rightarrow> parse_error + int option list" where
  "parse_other m [] = Inr []"
| "parse_other m (c # cs) =
     (case map_of m c of
        None \<Rightarrow> Inl (ParseKeyError c)
      | Some d \<Rightarrow> (case parse_other m cs of
                     Inl e \<Rightarrow> Inl e
                   | Inr ds \<Rightarrow> Inr (keep d @ ds)))"

definition parse ::
  "string \<Rightarrow> (char \<times> mapval) list \<Rightarrow> (char \<times> mapval) list \<Rightarrow> (char \<times> mapval) list
     \<Rightarrow> parse_error + int option list" where
  "parse str firstCM lastCM otherCM =
     (if str = [] then Inl ParseIndexError
      else case map_of firstCM (hd str) of
        None \<Rightarrow> Inl (ParseKeyError (hd str))
      | Some d0 \<Rightarrow>
         (case parse_other otherCM (butlast (tl str)) of
            Inl e \<Rightarrow> Inl e
          | Inr mid \<Rightarrow>
             (case map_of lastCM (last str) of
                None \<Rightarrow> Inl (ParseKeyError (last str))
              | Some dl \<Rightarrow> Inr (keep d0 @ mid @ keep dl))))"

subsection \<open>The base class ProductCode\<close>

text \<open>The attributes a class sets before \<^verbatim>\<open>ProductCode.__init__\<close> runs.\<close>

record format =
  ftype :: string
  flabel :: string
  firstCharMap :: "(char \<times> mapval) list"
  lastCharMap :: "(char \<times> mapval) list"
  otherCharMap :: "(char \<times> mapval) list"
  weights :: "int list"
  magic :: int
  int2char :: "int \<Rightarrow> error + string"

text \<open>The attributes of a constructed code.\<close>

record code =
  ctype :: string
  clabel :: string
  givenString :: string
  code_s :: string
  digits :: "int option list"
  checkDigit :: "int option"
  bits :: string

definition digit_chars :: string where
  "digit_chars = ''0123456789''"

text \<open>
  \<^verbatim>\<open>"%s" % n\<close> has one character exactly when \<open>0 \<le> n \<le> 9\<close>; every other integer
  prints with two characters or more and raises the internal error.
\<close>

definition int2char_base :: "string \<Rightarrow> int \<Rightarrow> error + string" where
  "int2char_base ty n =
     (if 0 \<le> n \<and> n \<le> 9 then Inr [digit_chars ! nat n]
      else Inl (ProductCodeError (Some (Text (ty @ '': Internal error'')))))"

definition int2char_ISBN10 :: "string \<Rightarrow> int \<Rightarrow> error + string" where
  "int2char_ISBN10 ty n =
     (if n = 10 then Inr ''X''
      else if 0 \<le> n \<and> n \<le> 9 then Inr [digit_chars ! nat n]
      else Inl (ProductCodeError (Some (Text (ty @ '': Internal error'')))))"

text \<open>
  \<^verbatim>\<open>s.upper()\<close>. The upper-cased string is read only after \<open>parse\<close> has accepted every
  character of \<^verbatim>\<open>s\<close>, and the character maps hold ASCII characters only.
\<close>

definition upper_char :: "char \<Rightarrow> char" where
  "upper_char c =
     (case map_of (zip ''abcdefghijklmnopqrstuvwxyz'' ''ABCDEFGHIJKLMNOPQRSTUVWXYZ'') c of
        Some u \<Rightarrow> u
      | None \<Rightarrow> c)"

definition upper :: "string \<Rightarrow> string" where
  "upper str = map upper_char str"

text \<open>\<^verbatim>\<open>re.sub("\*", c, self.s)\<close>: every \<^verbatim>\<open>*\<close> is replaced.\<close>

definition sub_star :: "string \<Rightarrow> string \<Rightarrow> string" where
  "sub_star c str = concat (map (\<lambda>x. if x = CHR ''*'' then c else [x]) str)"

text \<open>\<^verbatim>\<open>re.search("--|  ", self.s)\<close>\<close>

fun repeated_separator :: "string \<Rightarrow> bool" where
  "repeated_separator (a # b # cs) =
     ((a = CHR ''-'' \<and> b = CHR ''-'') \<or> (a = CHR '' '' \<and> b = CHR '' '')
      \<or> repeated_separator (b # cs))"
| "repeated_separator cs = False"

text \<open>
  The sum of \<^verbatim>\<open>remainder\<close>, position by position; a \<^verbatim>\<open>None\<close> among the digits cannot be
  multiplied.
\<close>

fun weighted_sum :: "int option list \<Rightarrow> int list \<Rightarrow> int \<Rightarrow> error + int" where
  "weighted_sum [] ws acc = Inr acc"
| "weighted_sum (d # ds) [] acc = Inl IndexError"
| "weighted_sum (None # ds) (w # ws) acc = Inl TypeError"
| "weighted_sum (Some d # ds) (w # ws) acc = weighted_sum ds ws (acc + d * w)"

definition remainder :: "format \<Rightarrow> int option list \<Rightarrow> error + int" where
  "remainder f ds =
     (if length ds \<noteq> length (weights f)
      then Inl (ProductCodeError (Some (Text (ftype f @ '': wrong number of digits''))))
      else case weighted_sum ds (weights f) 0 of
             Inl e \<Rightarrow> Inl e
           | Inr sm \<Rightarrow> Inr (sm mod magic f))"

text \<open>
  The loop \<^verbatim>\<open>for i in range(10)\<close> of \<^verbatim>\<open>resolveChecksum\<close> over the candidates still to
  try. When the candidates run out the method ends without a \<^verbatim>\<open>return\<close>, so it yields
  \<^verbatim>\<open>None\<close>, and the digit list keeps the last candidate written into it.
\<close>

fun solve_wildcard ::
  "format \<Rightarrow> int option list \<Rightarrow> nat \<Rightarrow> int list \<Rightarrow> error + (int option list \<times> int option)" where
  "solve_wildcard f ds iWild [] = Inr (ds, None)"
| "solve_wildcard f ds iWild (i # cands) =
     (case remainder f (ds[iWild := Some i]) of
        Inl e \<Rightarrow> Inl e
      | Inr r \<Rightarrow> if r = 0 then Inr (ds[iWild := Some i], Some i)
                 else solve_wildcard f (ds[iWild := Some i]) iWild cands)"

text \<open>\<^verbatim>\<open>self.digits.index(None)\<close>, called when there is a \<^verbatim>\<open>None\<close>.\<close>

definition index_None :: "int option list \<Rightarrow> nat" where
  "index_None ds = length (takeWhile (\<lambda>d. d \<noteq> None) ds)"

definition resolveChecksum :: "format \<Rightarrow> int option list \<Rightarrow> error + (int option list \<times> int option)" where
  "resolveChecksum f ds =
     (let nWild = count_list ds None in
      if nWild = 0 then
        (case remainder f ds of
           Inl e \<Rightarrow> Inl e
         | Inr r \<Rightarrow> if r = 0 then Inr (ds, None)
                    else Inl (ProductCodeError (Some (Text (ftype f @ '': checksum error'')))))
      else if nWild = 1 then solve_wildcard f ds (index_None ds) [0, 1, 2, 3, 4, 5, 6, 7, 8, 9]
      else Inl (ProductCodeError (Some (Text (ftype f @ '': too many wildcard digits.'')))))"

text \<open>The messages \<^verbatim>\<open>realityCheck\<close> collects, in its order.\<close>

definition reality_msgs :: "format \<Rightarrow> int option list \<Rightarrow> string \<Rightarrow> string list" where
  "reality_msgs f ds str =
     (if length (weights f) < length ds then [ftype f @ '': Too many digits'']
      else if length (weights f) > length ds then [ftype f @ '': Not enough digits'']
      else [])
     @ (if map_of (firstCharMap f) (hd str) = None then [ftype f @ '': Illegal first character''] else [])
     @ (if map_of (lastCharMap f) (last str) = None then [ftype f @ '': Illegal final character''] else [])
     @ concat (map (\<lambda>c. if map_of (otherCharMap f) c = None then [ftype f @ '': Illegal character''] else [])
                 (butlast (tl str)))
     @ (if repeated_separator str then [ftype f @ '': Repeated seperator''] else [])"

definition realityCheck :: "format \<Rightarrow> int option list \<Rightarrow> string \<Rightarrow> error + unit" where
  "realityCheck f ds str =
     (if str = [] then Inl IndexError
      else if reality_msgs f ds str \<noteq> []
      then Inl (ProductCodeError (Some (Text (join_lines (reality_msgs f ds str)))))
      else Inr ())"

text \<open>
  \<^verbatim>\<open>ProductCode.__init__\<close>. \<open>parse\<close> reads the string as given, the later steps read its
  upper-cased copy. \<^verbatim>\<open>self.digits[-1]\<close> of an empty list is an \<^verbatim>\<open>IndexError\<close>.
\<close>

definition ProductCode_init :: "format \<Rightarrow> string \<Rightarrow> error + code" where
  "ProductCode_init f str =
     (case parse str (firstCharMap f) (lastCharMap f) (otherCharMap f) of
        Inl ParseIndexError \<Rightarrow> Inl IndexError
      | Inl (ParseKeyError c) \<Rightarrow> Inl (ProductCodeError (Some (InvalidHere (ftype f) c)))
      | Inr ds0 \<Rightarrow>
         (case resolveChecksum f ds0 of
            Inl e \<Rightarrow> Inl e
          | Inr (ds, i) \<Rightarrow>
             (case (case i of
                      None \<Rightarrow> Inr (upper str)
                    | Some n \<Rightarrow> (case int2char f n of
                                   Inl e \<Rightarrow> Inl e
                                 | Inr c \<Rightarrow> Inr (sub_star c (upper str)))) of
                Inl e \<Rightarrow> Inl e
              | Inr str' \<Rightarrow>
                 (case realityCheck f ds str' of
                    Inl e \<Rightarrow> Inl e
                  | Inr u \<Rightarrow>
                     (if ds = [] then Inl IndexError
                      else Inr \<lparr>ctype = ftype f, clabel = flabel f, givenString = str,
                                code_s = str', digits = ds, checkDigit = last ds,
                                bits = []\<rparr>)))))"

subsection \<open>UPC, EAN13 and UPC5\<close>

definition UPC_firstCharMap :: "(char \<times> mapval) list" where
  "UPC_firstCharMap = makeCharMap [[(CHR ''*'', NoneV)]]"

definition UPC_lastCharMap :: "(char \<times> mapval) list" where
  "UPC_lastCharMap = makeCharMap [[(CHR ''*'', NoneV)]]"

definition UPC_otherCharMap :: "(char \<times> mapval) list" where
  "UPC_otherCharMap = makeCharMap [[(CHR ''*'', NoneV), (CHR ''-'', StrV ''-'')]]"

text \<open>Python's list indexing: a negative index counts from the end.\<close>

definition py_index :: "'a list \<Rightarrow> int \<Rightarrow> 'a option" where
  "py_index xs i =
     (let n = int (length xs); j = (if i < 0 then n + i else i)
      in if 0 \<le> j \<and> j < n then Some (xs ! nat j) else None)"

text \<open>
  \<^verbatim>\<open>UPC.setbits\<close>: the loop over the positions of \<^verbatim>\<open>digits\<close>, with the parity pattern
  from the same position on and the bits collected so far.
\<close>

fun setbits_loop ::
  "string \<Rightarrow> (char \<times> string) list list \<Rightarrow> int option list \<Rightarrow> string \<Rightarrow> error + string" where
  "setbits_loop pat bitchar [] acc = Inr acc"
| "setbits_loop [] bitchar (d # ds) acc = Inl IndexError"
| "setbits_loop (parity # pat) bitchar (None # ds) acc = Inl TypeError"
| "setbits_loop (parity # pat) bitchar (Some digit # ds) acc =
     (case py_index bitchar digit of
        None \<Rightarrow> Inl IndexError
      | Some row \<Rightarrow> (case map_of row parity of
                       None \<Rightarrow> Inl (KeyError parity)
                     | Some bitstr \<Rightarrow> setbits_loop pat bitchar ds (acc @ bitstr)))"

definition setbits :: "string \<Rightarrow> (char \<times> string) list list \<Rightarrow> int option list \<Rightarrow> error + string" where
  "setbits parityPattern bitchar ds = setbits_loop parityPattern bitchar ds []"

text \<open>
  \<^verbatim>\<open>EAN13.__init__\<close>, with the type and label that the subclasses ISBN13 and ISMN13 set
  before they call it.
\<close>

definition EAN13_format :: "string \<Rightarrow> string \<Rightarrow> format" where
  "EAN13_format ty lbl =
     \<lparr>ftype = ty, flabel = lbl, firstCharMap = UPC_firstCharMap, lastCharMap = UPC_lastCharMap,
      otherCharMap = UPC_otherCharMap, weights = [1] @ concat (replicate 6 [3, 1]), magic = 10,
      int2char = int2char_base ty\<rparr>"

definition EAN13_init :: "string \<Rightarrow> string \<Rightarrow> string \<Rightarrow> error + code" where
  "EAN13_init ty lbl str =
     (case ProductCode_init (EAN13_format ty lbl) str of
        Inl e \<Rightarrow> Inl e
      | Inr pc \<Rightarrow>
         (case digits pc of
            [] \<Rightarrow> Inl IndexError
          | None # rest \<Rightarrow> Inl TypeError
          | Some d0 # rest \<Rightarrow>
             (case py_index EAN13PARITY d0 of
                None \<Rightarrow> Inl IndexError
              | Some parityPattern \<Rightarrow>
                 (case setbits parityPattern EAN13BITS rest of
                    Inl e \<Rightarrow> Inl e
                  | Inr b \<Rightarrow>
                     Inr (pc\<lparr>bits := ''L0L'' @ take 42 b @ ''0L0L0'' @ drop 42 b @ ''L0L''\<rparr>)))))"

definition EAN13 :: "string \<Rightarrow> error + code" where
  "EAN13 str = EAN13_init ''EAN13'' ''EAN13'' str"

definition UPC5_format :: format where
  "UPC5_format =
     \<lparr>ftype = ''UPC5'', flabel = [], firstCharMap = makeCharMap [], lastCharMap = makeCharMap [[(CHR ''*'', NoneV)]],
      otherCharMap = makeCharMap [], weights = [3, 9, 3, 9, 3, -1], magic = 10,
      int2char = int2char_base ''UPC5''\<rparr>"

definition UPC5 :: "string \<Rightarrow> error + code" where
  "UPC5 str =
     (case ProductCode_init UPC5_format (str @ ''*'') of
        Inl e \<Rightarrow> Inl e
      | Inr pc \<Rightarrow>
         (case checkDigit pc of
            None \<Rightarrow> Inl TypeError
          | Some cd \<Rightarrow>
             (case py_index UPC5PARITY cd of
                None \<Rightarrow> Inl IndexError
              | Some parityPattern \<Rightarrow>
                 (case setbits parityPattern UPC5BITS (take 5 (digits pc)) of
                    Inl e \<Rightarrow> Inl e
                  | Inr b \<Rightarrow>
                     Inr (pc\<lparr>code_s := take 5 (code_s pc),
                            bits := ''1011'' @ take 7 b @ ''01''
                                    @ take 7 (drop 7 b) @ ''01''
                                    @ take 7 (drop 14 b) @ ''01''
                                    @ take 7 (drop 21 b) @ ''01''
                                    @ take 7 (drop 28 b)\<rparr>)))))"

subsection \<open>ISBN13, ISBN10, ISMN and ISMN13\<close>

text \<open>
  The prefix tests \<^verbatim>\<open>not s[0] in "9*" or not s[1] in "7*" or ...\<close> on the string as
  given: \<open>None\<close> is the \<^verbatim>\<open>IndexError\<close> of a string that ends before the test is decided.
\<close>

fun prefix_matches :: "string list \<Rightarrow> string \<Rightarrow> bool option" where
  "prefix_matches [] str = Some True"
| "prefix_matches (allowed # rest) [] = None"
| "prefix_matches (allowed # rest) (c # cs) =
     (if c \<in> set allowed then prefix_matches rest cs else Some False)"

definition ISBN13 :: "string \<Rightarrow> error + code" where
  "ISBN13 str =
     (case EAN13_init ''ISBN13'' ''ISBN'' str of
        Inl e \<Rightarrow> Inl e
      | Inr pc \<Rightarrow>
         (case prefix_matches [''9*'', ''7*'', ''89*''] str of
            None \<Rightarrow> Inl IndexError
          | Some False \<Rightarrow> Inl (ProductCodeError (Some (Text ''ISBN13: must begin with 978 or 979'')))
          | Some True \<Rightarrow> Inr pc))"

definition ISMN13 :: "string \<Rightarrow> error + code" where
  "ISMN13 str =
     (case EAN13_init ''ISMN13'' ''ISMN'' str of
        Inl e \<Rightarrow> Inl e
      | Inr pc \<Rightarrow>
         (case prefix_matches [''9*'', ''7*'', ''9*''] str of
            None \<Rightarrow> Inl IndexError
          | Some False \<Rightarrow> Inl (ProductCodeError (Some (Text ''ISMN13: must begin with 979'')))
          | Some True \<Rightarrow> Inr pc))"

definition ISBN10_format :: format where
  "ISBN10_format =
     \<lparr>ftype = ''ISBN10'', flabel = ''ISBN'',
      firstCharMap = makeCharMap [[(CHR ''*'', NoneV)]],
      lastCharMap = makeCharMap [[(CHR ''*'', NoneV), (CHR ''X'', IntV 10), (CHR ''x'', IntV 10)]],
      otherCharMap = makeCharMap [[(CHR ''*'', NoneV), (CHR ''-'', StrV ''-'')]],
      weights = [10, 9, 8, 7, 6, 5, 4, 3, 2, 1], magic = 11,
      int2char = int2char_ISBN10 ''ISBN10''\<rparr>"

text \<open>\<^verbatim>\<open>ISBN10.as13\<close>: \<^verbatim>\<open>ISBN13("978-%s*" % self.s[:-1])\<close>\<close>

definition ISBN10_as13 :: "code \<Rightarrow> error + code" where
  "ISBN10_as13 pc = ISBN13 (''978-'' @ butlast (code_s pc) @ ''*'')"

definition ISBN10 :: "string \<Rightarrow> error + code" where
  "ISBN10 str =
     (case ProductCode_init ISBN10_format str of
        Inl e \<Rightarrow> Inl e
      | Inr pc \<Rightarrow> (case ISBN10_as13 pc of
                     Inl e \<Rightarrow> Inl e
                   | Inr pc13 \<Rightarrow> Inr (pc\<lparr>bits := bits pc13\<rparr>)))"

definition ISMN_format :: format where
  "ISMN_format =
     \<lparr>ftype = ''ISMN'', flabel = ''ISMN'',
      firstCharMap = [(CHR ''M'', IntV 3)],
      lastCharMap = makeCharMap [[(CHR ''*'', NoneV)]],
      otherCharMap = makeCharMap [[(CHR ''*'', NoneV), (CHR ''-'', StrV ''-''), (CHR '' '', StrV '' '')]],
      weights = concat (replicate 5 [3, 1]), magic = 10,
      int2char = int2char_base ''ISMN''\<rparr>"

text \<open>\<^verbatim>\<open>ISMN.as13\<close>: \<^verbatim>\<open>ISMN13("979-0%s*" % self.s[1:-1])\<close>\<close>

definition ISMN_as13 :: "code \<Rightarrow> error + code" where
  "ISMN_as13 pc = ISMN13 (''979-0'' @ butlast (tl (code_s pc)) @ ''*'')"

definition ISMN :: "string \<Rightarrow> error + code" where
  "ISMN str =
     (case ProductCode_init ISMN_format str of
        Inl e \<Rightarrow> Inl e
      | Inr pc \<Rightarrow> (case ISMN_as13 pc of
                     Inl e \<Rightarrow> Inl e
                   | Inr pc13 \<Rightarrow> Inr (pc\<lparr>bits := bits pc13\<rparr>)))"

subsection \<open>The dispatcher makeProductCode\<close>

text \<open>
  One \<^verbatim>\<open>try: ... except ProductCodeError: pass\<close>: a \<^verbatim>\<open>ProductCodeError\<close> is caught,
  its message already in the shared list; any other exception leaves the dispatcher.
\<close>

datatype 'a attempt = Returned 'a | Caught "msg list" | Escaped error

fun try_except :: "error + 'a \<Rightarrow> msg list \<Rightarrow> 'a attempt" where
  "try_except (Inr c) msgs = Returned c"
| "try_except (Inl (ProductCodeError m)) msgs = Caught (ProductCodeError_init m msgs)"
| "try_except (Inl e) msgs = Escaped e"

text \<open>
  \<^verbatim>\<open>makeProductCode(s, forceISBN13, forceISMN13)\<close> started with the shared list \<open>msgs\<close>:
  its result and the shared list afterwards. The last four definitions are the four
  \<^verbatim>\<open>try\<close> statements from the last to the first.
\<close>

definition try_EAN13 :: "string \<Rightarrow> msg list \<Rightarrow> (error + code) \<times> msg list" where
  "try_EAN13 str msgs =
     (case try_except (EAN13 str) msgs of
        Returned c \<Rightarrow> (Inr c, msgs)
      | Escaped e \<Rightarrow> (Inl e, msgs)
      | Caught msgs' \<Rightarrow> (Inl (ProductCodeError None), ProductCodeError_init None msgs'))"

definition try_ISMN :: "string \<Rightarrow> bool \<Rightarrow> msg list \<Rightarrow> (error + code) \<times> msg list" where
  "try_ISMN str forceISMN13 msgs =
     (case try_except (case ISMN str of
                         Inl e \<Rightarrow> Inl e
                       | Inr rval \<Rightarrow> if forceISMN13 then ISMN_as13 rval else Inr rval) msgs of
        Returned c \<Rightarrow> (Inr c, msgs)
      | Escaped e \<Rightarrow> (Inl e, msgs)
      | Caught msgs' \<Rightarrow> try_EAN13 str msgs')"

definition try_ISBN10 :: "string \<Rightarrow> bool \<Rightarrow> bool \<Rightarrow> msg list \<Rightarrow> (error + code) \<times> msg list" where
  "try_ISBN10 str forceISBN13 forceISMN13 msgs =
     (case try_except (ISBN10 str) msgs of
        Escaped e \<Rightarrow> (Inl e, msgs)
      | Caught msgs' \<Rightarrow> try_ISMN str forceISMN13 msgs'
      | Returned rval \<Rightarrow>
         (if forceISBN13 then
            (case try_except (ISBN10_as13 rval) msgs of
               Returned c \<Rightarrow> (Inr c, msgs)
             | Escaped e \<Rightarrow> (Inl e, msgs)
             | Caught msgs' \<Rightarrow> try_ISMN str forceISMN13 msgs')
          else (Inr rval, msgs)))"

definition makeProductCode :: "string \<Rightarrow> bool \<Rightarrow> bool \<Rightarrow> msg list \<Rightarrow> (error + code) \<times> msg list" where
  "makeProductCode str forceISBN13 forceISMN13 msgs =
     (if forceISMN13
      then (Inl (ProductCodeError (Some (Text ''there is no ISMN13 yet.''))),
            ProductCodeError_init (Some (Text ''there is no ISMN13 yet.'')) msgs)
      else case try_except (ISBN13 str) msgs of
             Returned c \<Rightarrow> (Inr c, msgs)
           | Escaped e \<Rightarrow> (Inl e, msgs)
           | Caught msgs' \<Rightarrow> try_ISBN10 str forceISBN13 forceISMN13 msgs')"

subsection \<open>The classes by name\<close>

text \<open>
  The six concrete classes, the attributes each one runs \<^verbatim>\<open>ProductCode.__init__\<close> with
  and the string it passes to it (UPC5 appends the wildcard of its check digit).
\<close>

datatype fmt = F_EAN13 | F_ISBN13 | F_ISMN13 | F_ISBN10 | F_ISMN | F_UPC5

fun construct :: "fmt \<Rightarrow> string \<Rightarrow> error + code" where
  "construct F_EAN13 str = EAN13 str"
| "construct F_ISBN13 str = ISBN13 str"
| "construct F_ISMN13 str = ISMN13 str"
| "construct F_ISBN10 str = ISBN10 str"
| "construct F_ISMN str = ISMN str"
| "construct F_UPC5 str = UPC5 str"

fun format_of :: "fmt \<Rightarrow> format" where
  "format_of F_EAN13 = EAN13_format ''EAN13'' ''EAN13''"
| "format_of F_ISBN13 = EAN13_format ''ISBN13'' ''ISBN''"
| "format_of F_ISMN13 = EAN13_format ''ISMN13'' ''ISMN''"
| "format_of F_ISBN10 = ISBN10_format"
| "format_of F_ISMN = ISMN_format"
| "format_of F_UPC5 = UPC5_format"

fun passed_string :: "fmt \<Rightarrow> string \<Rightarrow> string" where
  "passed_string F_UPC5 str = str @ ''*''"
| "passed_string f str = str"

text \<open>The digit slots \<open>parse\<close> yields inside the constructor of a class.\<close>

definition parsed :: "fmt \<Rightarrow> string \<Rightarrow> parse_error + int option list" where
  "parsed f str =
     parse (passed_string f str) (firstCharMap (format_of f)) (lastCharMap (format_of f))
       (otherCharMap (format_of f))"

subsection \<open>The properties in the words of the specification\<close>

text \<open>Every slot is a digit and \<^verbatim>\<open>sum(digit[i] * weight[i]) mod modulus == 0\<close>.\<close>

definition checksum_ok :: "format \<Rightarrow> int option list \<Rightarrow> bool" where
  "checksum_ok f ds =
     (case those ds of
        None \<Rightarrow> False
      | Some dl \<Rightarrow> length dl = length (weights f)
                  \<and> sum_list (map (\<lambda>i. dl ! i * weights f ! i) [0..<length dl]) mod magic f = 0)"

text \<open>The bit-code of a digit in a column of a bit table.\<close>

definition digit_code :: "(char \<times> string) list list \<Rightarrow> int \<Rightarrow> char \<Rightarrow> string" where
  "digit_code table d column = (case map_of (table ! nat d) column of Some b \<Rightarrow> b | None \<Rightarrow> [])"

text \<open>
  The EAN-13 symbol of thirteen digits: the parity pattern is the entry of the parity
  table for the leading digit; left guard, the codes of digits 1 to 6, centre, the codes
  of digits 7 to 12, right guard.
\<close>

definition EAN13_symbol :: "int list \<Rightarrow> string" where
  "EAN13_symbol dl =
     (let pat = EAN13PARITY ! nat (dl ! 0) in
      ''L0L''
      @ concat (map (\<lambda>p. digit_code EAN13BITS (dl ! p) (pat ! (p - 1))) [1..<7])
      @ ''0L0L0''
      @ concat (map (\<lambda>p. digit_code EAN13BITS (dl ! p) (pat ! (p - 1))) [7..<13])
      @ ''L0L'')"

text \<open>
  The UPC-5 symbol of five digits and a check digit: the parity pattern is the entry for
  the check digit; left guard, then the five codes with the delineator between them.
\<close>

definition UPC5_symbol :: "int list \<Rightarrow> int \<Rightarrow> string" where
  "UPC5_symbol dl cd =
     (let pat = UPC5PARITY ! nat cd in
      ''1011'' @ digit_code UPC5BITS (dl ! 0) (pat ! 0)
      @ ''01'' @ digit_code UPC5BITS (dl ! 1) (pat ! 1)
      @ ''01'' @ digit_code UPC5BITS (dl ! 2) (pat ! 2)
      @ ''01'' @ digit_code UPC5BITS (dl ! 3) (pat ! 3)
      @ ''01'' @ digit_code UPC5BITS (dl ! 4) (pat ! 4))"

text \<open>
  The dispatcher in the words of the specification: the attempts in their order, the
  ISBN-10 one followed by its conversion, and the first that succeeds; the error without
  a message when none does.
\<close>

definition then_as13 :: "error + code \<Rightarrow> error + code" where
  "then_as13 r = (case r of Inl e \<Rightarrow> Inl e | Inr c \<Rightarrow> ISBN10_as13 c)"

definition attempts_in_order :: "string \<Rightarrow> (error + code) list" where
  "attempts_in_order str = [ISBN13 str, then_as13 (ISBN10 str), ISMN str, EAN13 str]"

definition first_success :: "(error + code) list \<Rightarrow> error + code" where
  "first_success rs =
     (case filter (\<lambda>r. \<not> isl r) rs of
        [] \<Rightarrow> Inl (ProductCodeError None)
      | r # more_rs \<Rightarrow> r)"

text \<open>
  The first raw characters of a string match a prefix pattern: the string is long enough
  and each of its first characters is one of those allowed at its place.
\<close>

definition raw_prefix_ok :: "string list \<Rightarrow> string \<Rightarrow> bool" where
  "raw_prefix_ok allowed str =
     (length allowed \<le> length str
      \<and> list_all2 (\<lambda>a c. c \<in> set a) allowed (take (length allowed) str))"

text \<open>A construction succeeded: it returned a code and raised nothing.\<close>

definition succeeded :: "error + 'a \<Rightarrow> bool" where
  "succeeded r = (case r of Inl e \<Rightarrow> False | Inr c \<Rightarrow> True)"

text \<open>The display character of a digit from 0 to 9.\<close>

definition digit_char :: "int \<Rightarrow> char" where
  "digit_char d = digit_chars ! nat d"

section \<open>Properties\<close>

subsection \<open>Evaluations at concrete inputs\<close>

text \<open>
  Claim C1 (a successfully constructed code satisfies its checksum equation; an input
  whose wildcard has no solution among the candidates 0 to 9 is never returned as valid).
  The code breaks it: for the ISBN-10 \<^verbatim>\<open>0-8044-2957-*\<close> the check digit is X, no candidate
  matches, \<^verbatim>\<open>resolveChecksum\<close> ends its loop and yields \<^verbatim>\<open>None\<close>, and the constructor
  returns a code whose last digit is the last candidate 9, whose string still holds the
  wildcard and whose weighted sum is 10 modulo 11.
\<close>

theorem C1_ISBN10_unsolved_wildcard_is_returned:
  "map_sum id (\<lambda>pc. (digits pc, code_s pc, checkDigit pc, checksum_ok ISBN10_format (digits pc)))
     (ISBN10 ''0-8044-2957-*'')
   = Inr ([Some 0, Some 8, Some 0, Some 4, Some 4, Some 2, Some 9, Some 5, Some 7, Some 9],
          ''0-8044-2957-*'', Some 9, False)"
  by code_simp

subsection \<open>Facts about parse\<close>

lemma parse_other_length: "parse_other m cs = Inr ds \<Longrightarrow> length ds \<le> length cs"
proof (induction cs arbitrary: ds)
  case Nil
  then show ?case by simp
next
  case (Cons c cs)
  then show ?case
    by (cases "map_of m c"; cases "parse_other m cs"; cases "the (map_of m c)") auto
qed

lemma length_keep: "length (keep v) \<le> 1"
  by (cases v) auto

lemma parse_Inr_iff:
  "parse str fm lm om = Inr ds \<longleftrightarrow>
     str \<noteq> [] \<and> (\<exists>d0 mid dl. map_of fm (hd str) = Some d0 \<and> parse_other om (butlast (tl str)) = Inr mid
        \<and> map_of lm (last str) = Some dl \<and> ds = keep d0 @ mid @ keep dl)"
  by (auto simp: parse_def split: option.splits sum.splits)

lemma parse_length:
  assumes "parse str fm lm om = Inr ds"
  shows "length ds \<le> length str + 1"
proof -
  from assms obtain d0 mid dl where ne: "str \<noteq> []" and
    mid: "parse_other om (butlast (tl str)) = Inr mid" and ds: "ds = keep d0 @ mid @ keep dl"
    unfolding parse_Inr_iff by blast
  have "length mid \<le> length (butlast (tl str))" using mid by (rule parse_other_length)
  moreover have "length (keep d0) \<le> 1" "length (keep dl) \<le> 1" by (rule length_keep)+
  moreover have "1 \<le> length str" using ne by (cases str) auto
  ultimately show ?thesis using ds by simp
qed

lemma parse_empty: "parse [] fm lm om = Inl ParseIndexError"
  by (simp add: parse_def)

lemma parse_other_not_IndexError: "parse_other m cs \<noteq> Inl ParseIndexError"
  by (induction cs) (auto split: option.splits sum.splits)

lemma parse_nonempty: "str \<noteq> [] \<Longrightarrow> parse str fm lm om \<noteq> Inl ParseIndexError"
  using parse_other_not_IndexError by (auto simp: parse_def split: option.splits sum.splits)

subsection \<open>Facts about the checksum resolution\<close>

lemma no_None_map_Some: "None \<notin> set ds \<Longrightarrow> ds = map Some (map the ds)"
  by (induction ds) auto

lemma count_list_None_map_Some [simp]: "count_list (map Some dl) None = 0"
  by (induction dl) auto

lemma count_None_zero: "count_list ds None = 0 \<Longrightarrow> \<exists>dl. ds = map Some dl"
proof -
  assume "count_list ds None = 0"
  then have "None \<notin> set ds" by (simp add: count_list_0_iff)
  then have "ds = map Some (map the ds)" by (rule no_None_map_Some)
  then show ?thesis ..
qed

lemma count_None_one:
  "count_list ds None = 1 \<Longrightarrow>
     \<exists>pre post. ds = map Some pre @ None # map Some post \<and> index_None ds = length pre"
proof (induction ds)
  case Nil
  then show ?case by simp
next
  case (Cons d ds)
  show ?case
  proof (cases d)
    case None
    with Cons.prems have "count_list ds None = 0" by simp
    then obtain post where "ds = map Some post" using count_None_zero by blast
    with None have "d # ds = map Some [] @ None # map Some post \<and> index_None (d # ds) = length ([]::int list)"
      by (simp add: index_None_def)
    then show ?thesis by blast
  next
    case (Some a)
    with Cons.prems have "count_list ds None = 1" by simp
    then obtain pre post where "ds = map Some pre @ None # map Some post" "index_None ds = length pre"
      using Cons.IH by blast
    with Some have "d # ds = map Some (a # pre) @ None # map Some post \<and> index_None (d # ds) = length (a # pre)"
      by (simp add: index_None_def)
    then show ?thesis by blast
  qed
qed

lemma weighted_sum_map_Some:
  "length dl \<le> length ws \<Longrightarrow>
     weighted_sum (map Some dl) ws acc = Inr (acc + sum_list (map2 (*) dl ws))"
proof (induction dl arbitrary: ws acc)
  case Nil
  then show ?case by simp
next
  case (Cons d dl)
  then show ?case by (cases ws) (auto simp: algebra_simps)
qed

lemma remainder_map_Some:
  "remainder f (map Some dl) =
     (if length dl \<noteq> length (weights f)
      then Inl (ProductCodeError (Some (Text (ftype f @ '': wrong number of digits''))))
      else Inr (sum_list (map2 (*) dl (weights f)) mod magic f))"
  by (simp add: remainder_def weighted_sum_map_Some)

lemma solve_wildcard_Inr:
  assumes "solve_wildcard f ds k cands = Inr (ds', i)" and "cands \<noteq> []"
  shows "(\<exists>v\<in>set cands. i = Some v \<and> ds' = ds[k := Some v] \<and> remainder f ds' = Inr 0)
       \<or> (i = None \<and> ds' = ds[k := Some (last cands)]
           \<and> (\<forall>u\<in>set cands. \<exists>r. remainder f (ds[k := Some u]) = Inr r \<and> r \<noteq> 0))"
  using assms
proof (induction cands arbitrary: ds)
  case Nil
  then show ?case by simp
next
  case (Cons c cands)
  show ?case
  proof (cases "remainder f (ds[k := Some c])")
    case (Inl e)
    with Cons.prems show ?thesis by simp
  next
    case (Inr r)
    show ?thesis
    proof (cases "r = 0")
      case True
      with Inr Cons.prems show ?thesis by auto
    next
      case False
      with Inr Cons.prems have rec: "solve_wildcard f (ds[k := Some c]) k cands = Inr (ds', i)"
        by simp
      show ?thesis
      proof (cases "cands = []")
        case True
        with rec Inr False show ?thesis by auto
      next
        case ne: False
        from Cons.IH [OF rec ne] Inr False ne show ?thesis by auto
      qed
    qed
  qed
qed

lemma resolveChecksum_Inr:
  assumes "resolveChecksum f ds0 = Inr (ds, i)"
  shows "(count_list ds0 None = 0 \<and> ds = ds0 \<and> i = None \<and> remainder f ds0 = Inr 0)
       \<or> (count_list ds0 None = 1
           \<and> solve_wildcard f ds0 (index_None ds0) [0, 1, 2, 3, 4, 5, 6, 7, 8, 9] = Inr (ds, i))"
  using assms
  by (auto simp: resolveChecksum_def Let_def split: if_splits sum.splits)

lemma list_update_wild:
  "(map Some pre @ None # map Some post)[length pre := Some v] = map Some (pre @ v # post)"
  by (simp add: list_update_append)

lemma candidates_sup:
  fixes x :: int
  assumes "0 \<le> x" "x \<le> 9"
  shows "x \<in> set [0, 1, 2, 3, 4, 5, 6, 7, 8, 9::int]"
proof -
  from assms have "x = 0 \<or> x = 1 \<or> x = 2 \<or> x = 3 \<or> x = 4 \<or> x = 5 \<or> x = 6 \<or> x = 7 \<or> x = 8 \<or> x = 9"
    by arith
  then show ?thesis by simp
qed

lemma candidates_set: "set [0, 1, 2, 3, 4, 5, 6, 7, 8, 9::int] = {0..9}"
proof
  show "set [0, 1, 2, 3, 4, 5, 6, 7, 8, 9::int] \<subseteq> {0..9}" by simp
  show "{0..9} \<subseteq> set [0, 1, 2, 3, 4, 5, 6, 7, 8, 9::int]"
  proof
    fix x :: int assume "x \<in> {0..9}"
    then have "0 \<le> x" "x \<le> 9" by simp_all
    then show "x \<in> set [0, 1, 2, 3, 4, 5, 6, 7, 8, 9::int]" by (rule candidates_sup)
  qed
qed

lemma remainder_Some_Inr:
  "remainder f (map Some dl) = Inr r \<Longrightarrow>
     length dl = length (weights f) \<and> r = sum_list (map2 (*) dl (weights f)) mod magic f"
  unfolding remainder_map_Some by (simp split: if_splits)

text \<open>The wildcard loop on a digit list with its one wildcard after the digits \<open>pre\<close>.\<close>

lemma solve_wildcard_shape:
  assumes solve: "solve_wildcard f (map Some pre @ None # map Some post) (length pre) cands = Inr (ds, i)"
    and ne: "cands \<noteq> []"
  shows "\<exists>v\<in>set cands. ds = map Some (pre @ v # post)
       \<and> length (pre @ v # post) = length (weights f)
       \<and> ((i = Some v \<and> sum_list (map2 (*) (pre @ v # post) (weights f)) mod magic f = 0)
          \<or> (i = None \<and> v = last cands
              \<and> (\<forall>u\<in>set cands. sum_list (map2 (*) (pre @ u # post) (weights f)) mod magic f \<noteq> 0)))"
proof -
  let ?ds0 = "map Some pre @ None # map Some post"
  have upd: "?ds0[length pre := Some v] = map Some (pre @ v # post)" for v
    by (rule list_update_wild)
  from solve_wildcard_Inr [OF solve ne]
  show ?thesis
  proof (elim disjE bexE conjE)
    fix v
    assume v: "v \<in> set cands" and i: "i = Some v" and ds: "ds = ?ds0[length pre := Some v]"
      and r: "remainder f ds = Inr 0"
    from ds have ds': "ds = map Some (pre @ v # post)" by (simp only: upd)
    from r have "remainder f (map Some (pre @ v # post)) = Inr 0" by (simp only: ds')
    from remainder_Some_Inr [OF this]
    have "length (pre @ v # post) = length (weights f)"
      and "sum_list (map2 (*) (pre @ v # post) (weights f)) mod magic f = 0" by simp_all
    with v i ds' show ?thesis by (intro bexI [of _ v]) simp_all
  next
    assume i: "i = None" and ds: "ds = ?ds0[length pre := Some (last cands)]"
      and all: "\<forall>u\<in>set cands. \<exists>r. remainder f (?ds0[length pre := Some u]) = Inr r \<and> r \<noteq> 0"
    from ds have ds': "ds = map Some (pre @ last cands # post)" by (simp only: upd)
    have each: "length (pre @ u # post) = length (weights f)
        \<and> sum_list (map2 (*) (pre @ u # post) (weights f)) mod magic f \<noteq> 0" if "u \<in> set cands" for u
    proof -
      from all that obtain r where "remainder f (?ds0[length pre := Some u]) = Inr r" and r: "r \<noteq> 0"
        by blast
      then have "remainder f (map Some (pre @ u # post)) = Inr r" by (simp only: upd)
      from remainder_Some_Inr [OF this] r show ?thesis by simp
    qed
    have lastin: "last cands \<in> set cands" using ne by simp
    from each [OF lastin] have len: "length (pre @ last cands # post) = length (weights f)" by simp
    have "\<forall>u\<in>set cands. sum_list (map2 (*) (pre @ u # post) (weights f)) mod magic f \<noteq> 0"
    proof
      fix u assume "u \<in> set cands"
      from each [OF this] show "sum_list (map2 (*) (pre @ u # post) (weights f)) mod magic f \<noteq> 0" ..
    qed
    with i ds' len lastin show ?thesis by (intro bexI [of _ "last cands"]) simp_all
  qed
qed

text \<open>
  What a successful \<open>resolveChecksum\<close> leaves: digits in every slot, as many as there are
  weights. Either there was no wildcard and the checksum holds, or there was one, it now
  holds a candidate, and the checksum holds or no candidate satisfies it.
\<close>

lemma resolveChecksum_cases:
  assumes "resolveChecksum f ds0 = Inr (ds, i)"
  obtains (none) dl where "ds0 = map Some dl" "ds = ds0" "i = None"
      "length dl = length (weights f)"
      "sum_list (map2 (*) dl (weights f)) mod magic f = 0"
  | (wild) pre post v where "ds0 = map Some pre @ None # map Some post"
      "ds = map Some (pre @ v # post)" "0 \<le> v" "v \<le> 9"
      "length (pre @ v # post) = length (weights f)"
      "(i = Some v \<and> sum_list (map2 (*) (pre @ v # post) (weights f)) mod magic f = 0)
       \<or> (i = None \<and> v = 9
           \<and> (\<forall>u\<in>{0..9}. sum_list (map2 (*) (pre @ u # post) (weights f)) mod magic f \<noteq> 0))"
proof -
  define cands where "cands = [0, 1, 2, 3, 4, 5, 6, 7, 8, 9::int]"
  have cands_ne: "cands \<noteq> []" and cands_last: "last cands = 9" and cands_set: "set cands = {0..9}"
    unfolding cands_def using candidates_set by simp_all
  from resolveChecksum_Inr [OF assms] have
    "(count_list ds0 None = 0 \<and> ds = ds0 \<and> i = None \<and> remainder f ds0 = Inr 0)
       \<or> (count_list ds0 None = 1 \<and> solve_wildcard f ds0 (index_None ds0) cands = Inr (ds, i))"
    unfolding cands_def .
  then show thesis
  proof (elim disjE conjE)
    assume c: "count_list ds0 None = 0" and eq: "ds = ds0" "i = None" and r: "remainder f ds0 = Inr 0"
    from c obtain dl where dl: "ds0 = map Some dl" using count_None_zero by blast
    from r have "remainder f (map Some dl) = Inr 0" by (simp only: dl)
    from remainder_Some_Inr [OF this]
    have "length dl = length (weights f)" "sum_list (map2 (*) dl (weights f)) mod magic f = 0"
      by simp_all
    with dl eq show thesis by (rule none)
  next
    assume c: "count_list ds0 None = 1"
      and s: "solve_wildcard f ds0 (index_None ds0) cands = Inr (ds, i)"
    from c obtain pre post where
      ds0: "ds0 = map Some pre @ None # map Some post" and k: "index_None ds0 = length pre"
      using count_None_one by blast
    from s have "solve_wildcard f (map Some pre @ None # map Some post) (length pre) cands = Inr (ds, i)"
      unfolding k unfolding ds0 .
    from solve_wildcard_shape [OF this cands_ne]
    obtain v where v: "v \<in> set cands" and ds: "ds = map Some (pre @ v # post)"
      and len: "length (pre @ v # post) = length (weights f)"
      and alt: "(i = Some v \<and> sum_list (map2 (*) (pre @ v # post) (weights f)) mod magic f = 0)
          \<or> (i = None \<and> v = last cands
              \<and> (\<forall>u\<in>set cands. sum_list (map2 (*) (pre @ u # post) (weights f)) mod magic f \<noteq> 0))"
      by (elim bexE conjE)
    from v have range: "0 \<le> v" "v \<le> 9" unfolding cands_set by simp_all
    from alt have "(i = Some v \<and> sum_list (map2 (*) (pre @ v # post) (weights f)) mod magic f = 0)
       \<or> (i = None \<and> v = 9
           \<and> (\<forall>u\<in>{0..9}. sum_list (map2 (*) (pre @ u # post) (weights f)) mod magic f \<noteq> 0))"
      unfolding cands_last cands_set .
    with ds0 ds range len show thesis by (rule wild)
  qed
qed

subsection \<open>Facts about ProductCode.__init__\<close>

lemma ProductCode_init_Inr:
  assumes "ProductCode_init f str = Inr pc"
  obtains ds0 i where
    "parse str (firstCharMap f) (lastCharMap f) (otherCharMap f) = Inr ds0"
    "resolveChecksum f ds0 = Inr (digits pc, i)"
    "(i = None \<and> code_s pc = upper str)
     \<or> (\<exists>n c. i = Some n \<and> int2char f n = Inr c \<and> code_s pc = sub_star c (upper str))"
    "realityCheck f (digits pc) (code_s pc) = Inr ()"
    "digits pc \<noteq> []" "ctype pc = ftype f" "clabel pc = flabel f" "givenString pc = str"
    "checkDigit pc = last (digits pc)" "bits pc = []"
proof -
  from assms obtain ds0 where p: "parse str (firstCharMap f) (lastCharMap f) (otherCharMap f) = Inr ds0"
    by (cases "parse str (firstCharMap f) (lastCharMap f) (otherCharMap f)")
      (auto simp: ProductCode_init_def split: parse_error.splits)
  from assms p obtain ds i where r: "resolveChecksum f ds0 = Inr (ds, i)"
    by (cases "resolveChecksum f ds0") (auto simp: ProductCode_init_def)
  define str' where "str' = (case i of None \<Rightarrow> Inr (upper str)
      | Some n \<Rightarrow> (case int2char f n of Inl e \<Rightarrow> Inl e | Inr c \<Rightarrow> Inr (sub_star c (upper str))))"
  from assms p r obtain s' where s': "str' = Inr s'"
    by (cases str') (auto simp: ProductCode_init_def str'_def)
  from assms p r s' have rc: "realityCheck f ds s' = Inr ()"
    by (cases "realityCheck f ds s'") (auto simp: ProductCode_init_def str'_def)
  from assms p r s' rc have ne: "ds \<noteq> []" and
    pc: "pc = \<lparr>ctype = ftype f, clabel = flabel f, givenString = str,
                code_s = s', digits = ds, checkDigit = last ds, bits = []\<rparr>"
    by (auto simp: ProductCode_init_def str'_def split: if_splits)
  from s' have "(i = None \<and> s' = upper str)
     \<or> (\<exists>n c. i = Some n \<and> int2char f n = Inr c \<and> s' = sub_star c (upper str))"
    by (auto simp: str'_def split: option.splits sum.splits)
  with p r rc ne pc show thesis by (intro that [of ds0 i]) simp_all
qed

lemma ProductCode_init_length:
  assumes "ProductCode_init f str = Inr pc"
  shows "length (digits pc) = length (weights f)"
proof -
  from assms obtain ds0 i where "resolveChecksum f ds0 = Inr (digits pc, i)"
    by (rule ProductCode_init_Inr)
  then show ?thesis by (cases rule: resolveChecksum_cases) simp_all
qed

subsection \<open>The empty string\<close>

lemma ProductCode_init_empty: "ProductCode_init f [] = Inl IndexError"
  by (simp add: ProductCode_init_def parse_empty)

lemma EAN13_init_empty: "EAN13_init ty lbl [] = Inl IndexError"
  by (simp add: EAN13_init_def ProductCode_init_empty)

text \<open>
  Claim C10 (for the empty input every constructor and the dispatcher raise a plain
  IndexError). It fails for UPC5, which appends the wildcard of its check digit before it
  parses: the string is then \<^verbatim>\<open>*\<close>, its first character is not in UPC5's first
  character map, and the \<^verbatim>\<open>KeyError\<close> becomes a \<^verbatim>\<open>ProductCodeError\<close>.
\<close>

theorem C10_UPC5_empty_counterexample:
  "UPC5 [] = Inl (ProductCodeError (Some (InvalidHere ''UPC5'' CHR ''*'')))
   \<and> UPC5 [] \<noteq> Inl IndexError"
  by code_simp

text \<open>
  Claim C10, amended: for the empty input the constructors EAN13, ISBN13, ISMN13, ISBN10
  and ISMN, and the dispatcher with \<open>forceISMN13\<close> false, raise \<^verbatim>\<open>IndexError\<close>; the
  dispatcher does not catch it and leaves the shared message list as it was.
\<close>

theorem C10_empty_input_IndexError:
  "EAN13 [] = Inl IndexError \<and> ISBN13 [] = Inl IndexError \<and> ISMN13 [] = Inl IndexError
   \<and> ISBN10 [] = Inl IndexError \<and> ISMN [] = Inl IndexError
   \<and> makeProductCode [] forceISBN13 False msgs = (Inl IndexError, msgs)"
  by (simp add: EAN13_def ISBN13_def ISMN13_def ISBN10_def ISMN_def makeProductCode_def
      EAN13_init_empty ProductCode_init_empty)

subsection \<open>The prefix of ISBN13 and ISMN13\<close>

lemma prefix_matches_True:
  "prefix_matches allowed str = Some True \<longleftrightarrow> raw_prefix_ok allowed str"
proof (induction allowed str rule: prefix_matches.induct)
  case (1 str)
  then show ?case by (simp add: raw_prefix_ok_def)
next
  case (2 allowed rest)
  then show ?case by (simp add: raw_prefix_ok_def)
next
  case (3 allowed rest c cs)
  then show ?case by (auto simp: raw_prefix_ok_def)
qed

lemma prefix_matches_None:
  "prefix_matches allowed str = None \<Longrightarrow> length str < length allowed"
  by (induction allowed str rule: prefix_matches.induct) (auto split: if_splits)

lemma EAN13_init_Inr:
  assumes "EAN13_init ty lbl str = Inr pc"
  obtains pc0 d0 rest parityPattern b where
    "ProductCode_init (EAN13_format ty lbl) str = Inr pc0"
    "digits pc0 = Some d0 # rest"
    "py_index EAN13PARITY d0 = Some parityPattern"
    "setbits parityPattern EAN13BITS rest = Inr b"
    "pc = pc0\<lparr>bits := ''L0L'' @ take 42 b @ ''0L0L0'' @ drop 42 b @ ''L0L''\<rparr>"
  using assms
  by (auto simp: EAN13_init_def split: sum.splits list.splits option.splits)

lemma EAN13_weights:
  "weights (EAN13_format ty lbl) = [1, 3, 1, 3, 1, 3, 1, 3, 1, 3, 1, 3, 1]"
  by (simp add: EAN13_format_def eval_nat_numeral)

lemma EAN13_init_long:
  assumes "EAN13_init ty lbl str = Inr pc"
  shows "12 \<le> length str"
proof -
  from assms obtain pc0 where pc0: "ProductCode_init (EAN13_format ty lbl) str = Inr pc0"
    by (rule EAN13_init_Inr)
  then have "length (digits pc0) = 13"
    using ProductCode_init_length [OF pc0] by (simp add: EAN13_weights)
  moreover from pc0 obtain ds0 i where
    p: "parse str (firstCharMap (EAN13_format ty lbl)) (lastCharMap (EAN13_format ty lbl))
          (otherCharMap (EAN13_format ty lbl)) = Inr ds0"
    and r: "resolveChecksum (EAN13_format ty lbl) ds0 = Inr (digits pc0, i)"
    by (rule ProductCode_init_Inr)
  from r have "length ds0 = length (digits pc0)"
    by (cases rule: resolveChecksum_cases) simp_all
  moreover from parse_length [OF p] have "length ds0 \<le> length str + 1" .
  ultimately show ?thesis by simp
qed

lemma succeeded_simps [simp]: "succeeded (Inr c)" "\<not> succeeded (Inl e)"
  by (simp_all add: succeeded_def)

text \<open>
  Claim C8 (ISBN-13 and ISMN-13 succeed only if the raw input matches the prefix, 978 or
  979 for ISBN-13, 979 then 0 for ISMN-13). The fourth raw character of an ISMN-13 is not
  tested: \<^verbatim>\<open>ISMN13.__init__\<close> tests three characters and its message is "must begin
  with 979".
\<close>

theorem C8_ISMN13_fourth_character_counterexample:
  "map_sum id code_s (ISMN13 ''9791000000008'') = Inr ''9791000000008''
   \<and> ''9791000000008'' ! 3 = CHR ''1''"
  by code_simp

text \<open>
  Claim C8, amended: ISBN-13 construction succeeds only if the first three raw characters
  match 9 or *, 7 or *, 8 or 9 or *; ISMN-13 construction succeeds only if they match
  9 or *, 7 or *, 9 or * (no fourth character is tested). On a mismatch the construction
  fails: with the error of the EAN-13 pipeline when that fails on the string, and with the
  prefix error otherwise.
\<close>

theorem C8_prefix_of_raw_input:
  "(succeeded (ISBN13 str) \<longrightarrow> raw_prefix_ok [''9*'', ''7*'', ''89*''] str)
   \<and> (succeeded (ISMN13 str) \<longrightarrow> raw_prefix_ok [''9*'', ''7*'', ''9*''] str)
   \<and> (\<not> raw_prefix_ok [''9*'', ''7*'', ''89*''] str \<longrightarrow>
        ISBN13 str = (case EAN13_init ''ISBN13'' ''ISBN'' str of
                        Inl e \<Rightarrow> Inl e
                      | Inr c \<Rightarrow> Inl (ProductCodeError (Some (Text ''ISBN13: must begin with 978 or 979'')))))
   \<and> (\<not> raw_prefix_ok [''9*'', ''7*'', ''9*''] str \<longrightarrow>
        ISMN13 str = (case EAN13_init ''ISMN13'' ''ISMN'' str of
                        Inl e \<Rightarrow> Inl e
                      | Inr c \<Rightarrow> Inl (ProductCodeError (Some (Text ''ISMN13: must begin with 979'')))))"
proof -
  have no_IndexError: "prefix_matches allowed str \<noteq> None"
    if "EAN13_init ty lbl str = Inr c" "length allowed = 3" for ty lbl c allowed
    using EAN13_init_long [OF that(1)] prefix_matches_None [of allowed str] that(2) by auto
  have isbn: "ISBN13 str = (case EAN13_init ''ISBN13'' ''ISBN'' str of
        Inl e \<Rightarrow> Inl e
      | Inr c \<Rightarrow> if raw_prefix_ok [''9*'', ''7*'', ''89*''] str then Inr c
                 else Inl (ProductCodeError (Some (Text ''ISBN13: must begin with 978 or 979''))))"
  proof (cases "EAN13_init ''ISBN13'' ''ISBN'' str")
    case (Inl e)
    then show ?thesis by (simp add: ISBN13_def)
  next
    case (Inr c)
    from no_IndexError [OF Inr, of "[''9*'', ''7*'', ''89*'']"]
    obtain b where b: "prefix_matches [''9*'', ''7*'', ''89*''] str = Some b" by auto
    with prefix_matches_True [of "[''9*'', ''7*'', ''89*'']" str]
    have "b = raw_prefix_ok [''9*'', ''7*'', ''89*''] str" by auto
    with Inr b show ?thesis by (simp add: ISBN13_def)
  qed
  have ismn: "ISMN13 str = (case EAN13_init ''ISMN13'' ''ISMN'' str of
        Inl e \<Rightarrow> Inl e
      | Inr c \<Rightarrow> if raw_prefix_ok [''9*'', ''7*'', ''9*''] str then Inr c
                 else Inl (ProductCodeError (Some (Text ''ISMN13: must begin with 979''))))"
  proof (cases "EAN13_init ''ISMN13'' ''ISMN'' str")
    case (Inl e)
    then show ?thesis by (simp add: ISMN13_def)
  next
    case (Inr c)
    from no_IndexError [OF Inr, of "[''9*'', ''7*'', ''9*'']"]
    obtain b where b: "prefix_matches [''9*'', ''7*'', ''9*''] str = Some b" by auto
    with prefix_matches_True [of "[''9*'', ''7*'', ''9*'']" str]
    have "b = raw_prefix_ok [''9*'', ''7*'', ''9*''] str" by auto
    with Inr b show ?thesis by (simp add: ISMN13_def)
  qed
  show ?thesis
    by (simp add: isbn ismn split: sum.splits)
qed

theorem C8_prefix_witness:
  "succeeded (ISBN13 ''978-0-9669553-0-9'')
   \<and> raw_prefix_ok [''9*'', ''7*'', ''89*''] ''978-0-9669553-0-9''
   \<and> succeeded (ISMN13 ''97*-0-9669553-0-8'')
   \<and> raw_prefix_ok [''9*'', ''7*'', ''9*''] ''97*-0-9669553-0-8''
   \<and> \<not> raw_prefix_ok [''9*'', ''7*'', ''89*''] ''078-0-9669553-0-8''
   \<and> ISBN13 ''078-0-9669553-0-8''
       = Inl (ProductCodeError (Some (Text ''ISBN13: must begin with 978 or 979'')))
   \<and> \<not> raw_prefix_ok [''9*'', ''7*'', ''9*''] ''978-0-9669553-0-9''
   \<and> ISMN13 ''978-0-9669553-0-9''
       = Inl (ProductCodeError (Some (Text ''ISMN13: must begin with 979'')))"
proof -
  have a: "succeeded (ISBN13 ''978-0-9669553-0-9'')" by code_simp
  have b: "succeeded (ISMN13 ''97*-0-9669553-0-8'')" by code_simp
  have c: "\<not> raw_prefix_ok [''9*'', ''7*'', ''89*''] ''078-0-9669553-0-8''" by code_simp
  have d: "\<not> raw_prefix_ok [''9*'', ''7*'', ''9*''] ''978-0-9669553-0-9''" by code_simp
  have c': "succeeded (EAN13_init ''ISBN13'' ''ISBN'' ''078-0-9669553-0-8'')" by code_simp
  have d': "succeeded (EAN13_init ''ISMN13'' ''ISMN'' ''978-0-9669553-0-9'')" by code_simp
  from a C8_prefix_of_raw_input [of "''978-0-9669553-0-9''"]
  have a2: "raw_prefix_ok [''9*'', ''7*'', ''89*''] ''978-0-9669553-0-9''" by blast
  from b C8_prefix_of_raw_input [of "''97*-0-9669553-0-8''"]
  have b2: "raw_prefix_ok [''9*'', ''7*'', ''9*''] ''97*-0-9669553-0-8''" by blast
  from c' obtain x where x: "EAN13_init ''ISBN13'' ''ISBN'' ''078-0-9669553-0-8'' = Inr x"
    by (cases "EAN13_init ''ISBN13'' ''ISBN'' ''078-0-9669553-0-8''") simp_all
  from C8_prefix_of_raw_input [of "''078-0-9669553-0-8''"]
  have "\<not> raw_prefix_ok [''9*'', ''7*'', ''89*''] ''078-0-9669553-0-8'' \<longrightarrow>
        ISBN13 ''078-0-9669553-0-8'' = (case EAN13_init ''ISBN13'' ''ISBN'' ''078-0-9669553-0-8'' of
                        Inl e \<Rightarrow> Inl e
                      | Inr c \<Rightarrow> Inl (ProductCodeError (Some (Text ''ISBN13: must begin with 978 or 979''))))"
    by (elim conjE)
  from this c have "ISBN13 ''078-0-9669553-0-8'' = (case EAN13_init ''ISBN13'' ''ISBN'' ''078-0-9669553-0-8'' of
                        Inl e \<Rightarrow> Inl e
                      | Inr c \<Rightarrow> Inl (ProductCodeError (Some (Text ''ISBN13: must begin with 978 or 979''))))"
    by (rule mp)
  then have c2: "ISBN13 ''078-0-9669553-0-8''
       = Inl (ProductCodeError (Some (Text ''ISBN13: must begin with 978 or 979'')))"
    by (simp only: x sum.case)
  from d' obtain y where y: "EAN13_init ''ISMN13'' ''ISMN'' ''978-0-9669553-0-9'' = Inr y"
    by (cases "EAN13_init ''ISMN13'' ''ISMN'' ''978-0-9669553-0-9''") simp_all
  from C8_prefix_of_raw_input [of "''978-0-9669553-0-9''"]
  have "\<not> raw_prefix_ok [''9*'', ''7*'', ''9*''] ''978-0-9669553-0-9'' \<longrightarrow>
        ISMN13 ''978-0-9669553-0-9'' = (case EAN13_init ''ISMN13'' ''ISMN'' ''978-0-9669553-0-9'' of
                        Inl e \<Rightarrow> Inl e
                      | Inr c \<Rightarrow> Inl (ProductCodeError (Some (Text ''ISMN13: must begin with 979''))))"
    by (elim conjE)
  from this d have "ISMN13 ''978-0-9669553-0-9'' = (case EAN13_init ''ISMN13'' ''ISMN'' ''978-0-9669553-0-9'' of
                        Inl e \<Rightarrow> Inl e
                      | Inr c \<Rightarrow> Inl (ProductCodeError (Some (Text ''ISMN13: must begin with 979''))))"
    by (rule mp)
  then have d2: "ISMN13 ''978-0-9669553-0-9''
       = Inl (ProductCodeError (Some (Text ''ISMN13: must begin with 979'')))"
    by (simp only: y sum.case)
  from a a2 b b2 c c2 d d2 show ?thesis by (intro conjI)
qed

subsection \<open>Two or more wildcards\<close>

lemma count_keep_None: "count_list (keep v) None = (if v = NoneV then 1 else 0)"
  by (cases v) simp_all

lemma parse_other_count:
  assumes star: "\<And>v. map_of m (CHR ''*'') = Some v \<Longrightarrow> v = NoneV"
  shows "parse_other m cs = Inr ds \<Longrightarrow> count_list cs (CHR ''*'') \<le> count_list ds None"
proof (induction cs arbitrary: ds)
  case Nil
  then show ?case by simp
next
  case (Cons c cs)
  from Cons.prems obtain v ds' where v: "map_of m c = Some v" and ds': "parse_other m cs = Inr ds'"
    and ds: "ds = keep v @ ds'"
    by (auto split: option.splits sum.splits)
  from Cons.IH [OF ds'] have IH: "count_list cs (CHR ''*'') \<le> count_list ds' None" .
  show ?case
  proof (cases "c = CHR ''*''")
    case True
    with v star have "v = NoneV" by simp
    with IH ds True show ?thesis by simp
  next
    case False
    with IH ds show ?thesis by simp
  qed
qed

lemma split_first_last:
  assumes "2 \<le> length str"
  shows "str = hd str # butlast (tl str) @ [last str]"
proof -
  from assms obtain a rest where str: "str = a # rest" and ne: "rest \<noteq> []"
    by (cases str) (auto simp: Suc_le_eq)
  then show ?thesis by simp
qed

lemma parse_count:
  assumes fm: "\<And>v. map_of fm (CHR ''*'') = Some v \<Longrightarrow> v = NoneV"
    and lm: "\<And>v. map_of lm (CHR ''*'') = Some v \<Longrightarrow> v = NoneV"
    and om: "\<And>v. map_of om (CHR ''*'') = Some v \<Longrightarrow> v = NoneV"
    and p: "parse str fm lm om = Inr ds"
    and len: "2 \<le> length str"
  shows "count_list str (CHR ''*'') \<le> count_list ds None"
proof -
  from p obtain d0 mid dl where d0: "map_of fm (hd str) = Some d0"
    and mid: "parse_other om (butlast (tl str)) = Inr mid"
    and dl: "map_of lm (last str) = Some dl" and ds: "ds = keep d0 @ mid @ keep dl"
    unfolding parse_Inr_iff by blast
  have a: "count_list [hd str] (CHR ''*'') \<le> count_list (keep d0) None"
    using d0 fm by (auto simp: count_keep_None)
  have b: "count_list (butlast (tl str)) (CHR ''*'') \<le> count_list mid None"
    using om mid by (rule parse_other_count)
  have c: "count_list [last str] (CHR ''*'') \<le> count_list (keep dl) None"
    using dl lm by (auto simp: count_keep_None)
  have "count_list str (CHR ''*'')
      = count_list [hd str] (CHR ''*'') + count_list (butlast (tl str)) (CHR ''*'')
        + count_list [last str] (CHR ''*'')"
    by (subst split_first_last [OF len]) simp
  with a b c ds show ?thesis by simp
qed

lemma star_is_wildcard:
  "map_of (firstCharMap (format_of f)) (CHR ''*'') = Some v \<Longrightarrow> v = NoneV"
  "map_of (lastCharMap (format_of f)) (CHR ''*'') = Some v \<Longrightarrow> v = NoneV"
  "map_of (otherCharMap (format_of f)) (CHR ''*'') = Some v \<Longrightarrow> v = NoneV"
  by (cases f; simp add: EAN13_format_def ISBN10_format_def ISMN_format_def UPC5_format_def
      UPC_firstCharMap_def UPC_lastCharMap_def UPC_otherCharMap_def makeCharMap_def digitMap_def)+

lemma ProductCode_init_too_many:
  assumes "parse str (firstCharMap f) (lastCharMap f) (otherCharMap f) = Inr ds"
    and "2 \<le> count_list ds None"
  shows "ProductCode_init f str
       = Inl (ProductCodeError (Some (Text (ftype f @ '': too many wildcard digits.''))))"
  using assms by (simp add: ProductCode_init_def resolveChecksum_def)

lemma ProductCode_init_parse_Inl:
  assumes "parse str (firstCharMap f) (lastCharMap f) (otherCharMap f) = Inl e"
  shows "\<exists>e'. ProductCode_init f str = Inl e'"
  using assms by (simp add: ProductCode_init_def split: parse_error.splits)

lemma construct_init_Inl:
  "ProductCode_init (format_of f) (passed_string f str) = Inl e \<Longrightarrow> construct f str = Inl e"
  by (cases f) (simp_all add: EAN13_def EAN13_init_def ISBN13_def ISMN13_def ISBN10_def ISMN_def UPC5_def)

lemma ftype_format_of:
  "ftype (format_of f) = (case f of F_EAN13 \<Rightarrow> ''EAN13'' | F_ISBN13 \<Rightarrow> ''ISBN13''
     | F_ISMN13 \<Rightarrow> ''ISMN13'' | F_ISBN10 \<Rightarrow> ''ISBN10'' | F_ISMN \<Rightarrow> ''ISMN'' | F_UPC5 \<Rightarrow> ''UPC5'')"
  by (cases f) (simp_all add: EAN13_format_def ISBN10_format_def ISMN_format_def UPC5_format_def)

lemma ProductCode_init_parse_KeyError:
  assumes "parse str (firstCharMap f) (lastCharMap f) (otherCharMap f) = Inl (ParseKeyError c)"
  shows "ProductCode_init f str = Inl (ProductCodeError (Some (InvalidHere (ftype f) c)))"
  using assms by (simp add: ProductCode_init_def)

text \<open>
  Claim C7 fails where \<^verbatim>\<open>parse\<close> fails first: the string below holds two wildcard
  characters, and its construction as EAN13 raises the error of the character \<^verbatim>\<open>a\<close>,
  which \<^verbatim>\<open>parse\<close> meets before \<^verbatim>\<open>resolveChecksum\<close> counts the wildcards.
\<close>

theorem C7_invalid_character_counterexample:
  "2 \<le> count_list ''*78-0-9669553-0-*a'' (CHR ''*'')
   \<and> EAN13 ''*78-0-9669553-0-*a'' = Inl (ProductCodeError (Some (InvalidHere ''EAN13'' CHR ''a'')))
   \<and> EAN13 ''*78-0-9669553-0-*a''
       \<noteq> Inl (ProductCodeError (Some (Text ''EAN13: too many wildcard digits.'')))"
  by code_simp

text \<open>
  Claim C7, amended: when the digit slots parsed from the input hold two or more wildcards,
  the construction fails with the too-many-wildcards error, whatever the number of digits,
  the separators and the checksum are; no input with two or more wildcard characters is
  constructed successfully under any format; and such an input fails either with the
  too-many-wildcards error or, when \<^verbatim>\<open>parse\<close> rejects one of its characters, with the
  error of that character.
\<close>

theorem C7_two_wildcards_fail:
  "(parsed f str = Inr ds \<longrightarrow> 2 \<le> count_list ds None \<longrightarrow>
      construct f str
        = Inl (ProductCodeError (Some (Text (ftype (format_of f) @ '': too many wildcard digits.'')))))
   \<and> (2 \<le> count_list str (CHR ''*'') \<longrightarrow> \<not> succeeded (construct f str))
   \<and> (2 \<le> count_list str (CHR ''*'') \<longrightarrow>
        construct f str
          = Inl (ProductCodeError (Some (Text (ftype (format_of f) @ '': too many wildcard digits.''))))
        \<or> (\<exists>c. parsed f str = Inl (ParseKeyError c)
               \<and> construct f str = Inl (ProductCodeError (Some (InvalidHere (ftype (format_of f)) c)))))"
proof (intro conjI impI)
  assume "parsed f str = Inr ds" and "2 \<le> count_list ds None"
  then have "ProductCode_init (format_of f) (passed_string f str)
       = Inl (ProductCodeError (Some (Text (ftype (format_of f) @ '': too many wildcard digits.''))))"
    unfolding parsed_def by (rule ProductCode_init_too_many)
  then show "construct f str
        = Inl (ProductCodeError (Some (Text (ftype (format_of f) @ '': too many wildcard digits.''))))"
    by (rule construct_init_Inl)
next
  assume two: "2 \<le> count_list str (CHR ''*'')"
  let ?s = "passed_string f str"
  let ?many = "Inl (ProductCodeError (Some (Text (ftype (format_of f) @ '': too many wildcard digits.''))))
                 :: error + code"
  have "count_list str (CHR ''*'') \<le> count_list ?s (CHR ''*'')" by (cases f) simp_all
  with two have two': "2 \<le> count_list ?s (CHR ''*'')" by simp
  have "count_list ?s (CHR ''*'') \<le> length ?s" by (rule count_le_length)
  with two' have len: "2 \<le> length ?s" by simp
  then have ne: "?s \<noteq> []" by auto
  have kinds: "construct f str = ?many
        \<or> (\<exists>c. parsed f str = Inl (ParseKeyError c)
               \<and> construct f str = Inl (ProductCodeError (Some (InvalidHere (ftype (format_of f)) c))))"
  proof (cases "parsed f str")
    case (Inl pe)
    from parse_nonempty [OF ne] Inl obtain c where c: "pe = ParseKeyError c"
      unfolding parsed_def by (cases pe) auto
    from Inl c have "ProductCode_init (format_of f) ?s
        = Inl (ProductCodeError (Some (InvalidHere (ftype (format_of f)) c)))"
      unfolding parsed_def by (simp add: ProductCode_init_parse_KeyError)
    then have "construct f str = Inl (ProductCodeError (Some (InvalidHere (ftype (format_of f)) c)))"
      by (rule construct_init_Inl)
    with Inl c show ?thesis by simp
  next
    case (Inr ds)
    then have p: "parse ?s (firstCharMap (format_of f)) (lastCharMap (format_of f))
        (otherCharMap (format_of f)) = Inr ds"
      by (simp add: parsed_def)
    have "count_list ?s (CHR ''*'') \<le> count_list ds None"
      using star_is_wildcard p len by (rule parse_count)
    with two' have "2 \<le> count_list ds None" by simp
    with p have "ProductCode_init (format_of f) ?s = ?many" by (rule ProductCode_init_too_many)
    then have "construct f str = ?many" by (rule construct_init_Inl)
    then show ?thesis by (rule disjI1)
  qed
  show "construct f str = ?many
        \<or> (\<exists>c. parsed f str = Inl (ParseKeyError c)
               \<and> construct f str = Inl (ProductCodeError (Some (InvalidHere (ftype (format_of f)) c))))"
    by (rule kinds)
  from kinds obtain e where "construct f str = Inl e" by (elim disjE exE conjE) simp_all
  then show "\<not> succeeded (construct f str)" by simp
qed

theorem C7_two_wildcards_witness:
  "parsed F_ISBN10 ''0-9*69553-0-*''
     = Inr [Some 0, Some 9, None, Some 6, Some 9, Some 5, Some 5, Some 3, Some 0, None]
   \<and> 2 \<le> count_list [Some 0, Some 9, None, Some 6, Some 9, Some 5, Some 5, Some 3, Some 0, None::int option] None
   \<and> ISBN10 ''0-9*69553-0-*''
       = Inl (ProductCodeError (Some (Text ''ISBN10: too many wildcard digits.'')))
   \<and> 2 \<le> count_list ''*78-0-9669553-0-*'' (CHR ''*'')
   \<and> \<not> succeeded (EAN13 ''*78-0-9669553-0-*'')"
proof -
  have a: "parsed F_ISBN10 ''0-9*69553-0-*''
     = Inr [Some 0, Some 9, None, Some 6, Some 9, Some 5, Some 5, Some 3, Some 0, None]"
    by code_simp
  have b: "2 \<le> count_list [Some 0, Some 9, None, Some 6, Some 9, Some 5, Some 5, Some 3, Some 0, None::int option] None"
    by simp
  have c: "2 \<le> count_list ''*78-0-9669553-0-*'' (CHR ''*'')" by simp
  from C7_two_wildcards_fail [of F_ISBN10 "''0-9*69553-0-*''"
      "[Some 0, Some 9, None, Some 6, Some 9, Some 5, Some 5, Some 3, Some 0, None]"] a b
  have d: "ISBN10 ''0-9*69553-0-*''
       = Inl (ProductCodeError (Some (Text ''ISBN10: too many wildcard digits.'')))"
    by (simp add: ISBN10_format_def)
  from C7_two_wildcards_fail [of F_EAN13 "''*78-0-9669553-0-*''"] c
  have e: "\<not> succeeded (EAN13 ''*78-0-9669553-0-*'')" by simp
  from a b d c e show ?thesis by (intro conjI)
qed

subsection \<open>Every ProductCodeError of a constructor carries a message\<close>

lemma join_lines_nonempty: "xs \<noteq> [] \<Longrightarrow> [] \<notin> set xs \<Longrightarrow> join_lines xs \<noteq> []"
  by (induction xs rule: join_lines.induct) auto

lemma reality_msgs_nonempty: "[] \<notin> set (reality_msgs f ds str)"
  by (auto simp: reality_msgs_def)

lemma weighted_sum_not_PCE: "weighted_sum ds ws acc \<noteq> Inl (ProductCodeError m)"
  by (induction ds ws acc rule: weighted_sum.induct) auto

lemma remainder_PCE: "remainder f ds = Inl (ProductCodeError m) \<Longrightarrow> truthy m"
  using weighted_sum_not_PCE [of ds "weights f" 0 m]
  by (auto simp: remainder_def split: if_splits sum.splits)

lemma solve_wildcard_PCE:
  "solve_wildcard f ds k cands = Inl (ProductCodeError m) \<Longrightarrow> truthy m"
proof (induction cands arbitrary: ds)
  case Nil
  then show ?case by simp
next
  case (Cons c cands)
  show ?case
  proof (cases "remainder f (ds[k := Some c])")
    case (Inl e)
    with Cons.prems have "remainder f (ds[k := Some c]) = Inl (ProductCodeError m)" by simp
    then show ?thesis by (rule remainder_PCE)
  next
    case (Inr r)
    with Cons.prems have "solve_wildcard f (ds[k := Some c]) k cands = Inl (ProductCodeError m)"
      by (simp split: if_splits)
    then show ?thesis by (rule Cons.IH)
  qed
qed

lemma resolveChecksum_PCE: "resolveChecksum f ds = Inl (ProductCodeError m) \<Longrightarrow> truthy m"
  by (auto simp: resolveChecksum_def Let_def simp del: solve_wildcard.simps
      split: if_splits sum.splits dest: remainder_PCE solve_wildcard_PCE)

lemma realityCheck_PCE: "realityCheck f ds str = Inl (ProductCodeError m) \<Longrightarrow> truthy m"
  using join_lines_nonempty [OF _ reality_msgs_nonempty, of f ds str]
  by (auto simp: realityCheck_def split: if_splits)

lemma int2char_PCE: "int2char (format_of f) n = Inl (ProductCodeError m) \<Longrightarrow> truthy m"
  by (cases f) (auto simp: EAN13_format_def ISBN10_format_def ISMN_format_def UPC5_format_def
      int2char_base_def int2char_ISBN10_def split: if_splits)

lemma ProductCode_init_PCE:
  assumes i2c: "\<And>n m. int2char f n = Inl (ProductCodeError m) \<Longrightarrow> truthy m"
    and err: "ProductCode_init f str = Inl (ProductCodeError m)"
  shows "truthy m"
proof (cases "parse str (firstCharMap f) (lastCharMap f) (otherCharMap f)")
  case (Inl pe)
  with err show ?thesis by (cases pe) (auto simp: ProductCode_init_def)
next
  case p: (Inr ds0)
  show ?thesis
  proof (cases "resolveChecksum f ds0")
    case (Inl e)
    with p err have "resolveChecksum f ds0 = Inl (ProductCodeError m)"
      by (simp add: ProductCode_init_def)
    then show ?thesis by (rule resolveChecksum_PCE)
  next
    case r: (Inr res)
    obtain ds i where res: "res = (ds, i)" by (cases res)
    show ?thesis
    proof (cases i)
      case None
      with p r res err have "realityCheck f ds (upper str) = Inl (ProductCodeError m)"
        by (auto simp: ProductCode_init_def split: sum.splits if_splits)
      then show ?thesis by (rule realityCheck_PCE)
    next
      case (Some n)
      show ?thesis
      proof (cases "int2char f n")
        case (Inl e)
        with p r res Some err have "int2char f n = Inl (ProductCodeError m)"
          by (simp add: ProductCode_init_def)
        then show ?thesis by (rule i2c)
      next
        case (Inr c)
        with p r res Some err
        have "realityCheck f ds (sub_star c (upper str)) = Inl (ProductCodeError m)"
          by (auto simp: ProductCode_init_def split: sum.splits if_splits)
        then show ?thesis by (rule realityCheck_PCE)
      qed
    qed
  qed
qed

lemma setbits_loop_not_PCE: "setbits_loop pat bitchar ds acc \<noteq> Inl (ProductCodeError m)"
  by (induction pat bitchar ds acc rule: setbits_loop.induct) (auto split: option.splits)

lemma EAN13_init_PCE:
  assumes "EAN13_init ty lbl str = Inl (ProductCodeError m)"
  shows "truthy m"
proof -
  have i2c: "truthy m'" if "int2char (EAN13_format ty lbl) n = Inl (ProductCodeError m')" for n m'
    using that by (auto simp: EAN13_format_def int2char_base_def split: if_splits)
  from assms have "ProductCode_init (EAN13_format ty lbl) str = Inl (ProductCodeError m)"
    using setbits_loop_not_PCE
    by (auto simp: EAN13_init_def setbits_def split: sum.splits list.splits option.splits)
  with i2c show ?thesis by (rule ProductCode_init_PCE)
qed

lemma ISBN13_PCE: "ISBN13 str = Inl (ProductCodeError m) \<Longrightarrow> truthy m"
  using EAN13_init_PCE [of "''ISBN13''" "''ISBN''" str m]
  by (auto simp: ISBN13_def split: sum.splits option.splits bool.splits)

lemma ISMN13_PCE: "ISMN13 str = Inl (ProductCodeError m) \<Longrightarrow> truthy m"
  using EAN13_init_PCE [of "''ISMN13''" "''ISMN''" str m]
  by (auto simp: ISMN13_def split: sum.splits option.splits bool.splits)

lemma construct_PCE:
  assumes "construct f str = Inl (ProductCodeError m)"
  shows "truthy m"
proof (cases f)
  case F_EAN13
  with assms show ?thesis using EAN13_init_PCE by (simp add: EAN13_def)
next
  case F_ISBN13
  with assms show ?thesis using ISBN13_PCE by simp
next
  case F_ISMN13
  with assms show ?thesis using ISMN13_PCE by simp
next
  case F_ISBN10
  with assms have "ISBN10 str = Inl (ProductCodeError m)" by simp
  then show ?thesis
    using ProductCode_init_PCE [of ISBN10_format str m] int2char_PCE [of F_ISBN10] ISBN13_PCE
    by (auto simp: ISBN10_def ISBN10_as13_def split: sum.splits)
next
  case F_ISMN
  with assms have "ISMN str = Inl (ProductCodeError m)" by simp
  then show ?thesis
    using ProductCode_init_PCE [of ISMN_format str m] int2char_PCE [of F_ISMN] ISMN13_PCE
    by (auto simp: ISMN_def ISMN_as13_def split: sum.splits)
next
  case F_UPC5
  with assms have "UPC5 str = Inl (ProductCodeError m)" by simp
  then show ?thesis
    using ProductCode_init_PCE [of UPC5_format "str @ ''*''" m] int2char_PCE [of F_UPC5]
      setbits_loop_not_PCE
    by (auto simp: UPC5_def setbits_def split: sum.splits option.splits)
qed

subsection \<open>The shared message list\<close>

lemma join_lines_snoc:
  "join_lines (xs @ [y]) = (if xs = [] then y else join_lines xs @ [CHR 0x0A] @ y)"
  by (induction xs rule: join_lines.induct) auto

lemma sublist_join_lines_last: "sublist y (join_lines (xs @ [y]))"
proof (cases "xs = []")
  case True
  then show ?thesis by simp
next
  case False
  then have "join_lines (xs @ [y]) = (join_lines xs @ [CHR 0x0A]) @ y"
    by (simp add: join_lines_snoc)
  then show ?thesis by (simp only: sublist_append_leftI)
qed

lemma raised_PCE:
  "truthy (Some t) \<Longrightarrow> raised (Inl (ProductCodeError (Some t))) msgs = msgs @ [t]"
  by (simp add: ProductCodeError_init_def)

text \<open>
  Claim C9: the messages are kept in one list shared by all \<^verbatim>\<open>ProductCodeError\<close>
  instances. When two constructions each raise a \<^verbatim>\<open>ProductCodeError\<close>, each message is
  appended to that list, so the text of the second error holds the message of the first
  as well as its own, and it differs from the text the same second construction gives
  when it starts from an empty list.
\<close>

theorem C9_shared_message_list:
  assumes "construct f1 s1 = Inl (ProductCodeError m1)"
    and "construct f2 s2 = Inl (ProductCodeError m2)"
  shows "\<exists>t1 t2. m1 = Some t1 \<and> m2 = Some t2
     \<and> raised (construct f2 s2) (raised (construct f1 s1) msgs) = msgs @ [t1, t2]
     \<and> sublist (msg_text repr t1)
         (ProductCodeError_str repr (raised (construct f2 s2) (raised (construct f1 s1) msgs)))
     \<and> sublist (msg_text repr t2)
         (ProductCodeError_str repr (raised (construct f2 s2) (raised (construct f1 s1) msgs)))
     \<and> ProductCodeError_str repr (raised (construct f2 s2) (raised (construct f1 s1) msgs))
         \<noteq> ProductCodeError_str repr (raised (construct f2 s2) [])"
proof -
  from assms(1) have "truthy m1" by (rule construct_PCE)
  then obtain t1 where m1: "m1 = Some t1" by (cases m1) auto
  from assms(2) have "truthy m2" by (rule construct_PCE)
  then obtain t2 where m2: "m2 = Some t2" by (cases m2) auto
  have r1: "raised (construct f1 s1) msgs = msgs @ [t1]"
    using \<open>truthy m1\<close> by (simp only: assms(1) m1 raised_PCE)
  have r2: "raised (construct f2 s2) ms = ms @ [t2]" for ms
    using \<open>truthy m2\<close> by (simp only: assms(2) m2 raised_PCE)
  let ?a = "msg_text repr t1" and ?b = "msg_text repr t2"
  let ?first = "join_lines (map (msg_text repr) msgs @ [?a])"
  have both: "raised (construct f2 s2) (raised (construct f1 s1) msgs) = msgs @ [t1, t2]"
    by (simp add: r1 r2)
  have str: "ProductCodeError_str repr (msgs @ [t1, t2]) = ?first @ [CHR 0x0A] @ ?b"
    using join_lines_snoc [of "map (msg_text repr) msgs @ [?a]" ?b]
    by (simp add: ProductCodeError_str_def)
  have "sublist ?a ?first" by (rule sublist_join_lines_last)
  then have s1: "sublist ?a (?first @ [CHR 0x0A] @ ?b)"
    by (auto simp: sublist_def) (metis append.assoc)
  have s2: "sublist ?b (?first @ [CHR 0x0A] @ ?b)"
    using sublist_append_leftI [of ?b "?first @ [CHR 0x0A]"] by simp
  have alone: "ProductCodeError_str repr (raised (construct f2 s2) []) = ?b"
    by (simp add: r2 ProductCodeError_str_def)
  have "length (?first @ [CHR 0x0A] @ ?b) \<noteq> length ?b" by simp
  then have diff: "?first @ [CHR 0x0A] @ ?b \<noteq> ?b" by (metis (no_types))
  show ?thesis
    by (intro exI [of _ t1] exI [of _ t2] conjI m1 m2 both)
      (simp_all only: both str alone s1 s2 diff not_False_eq_True)
qed

theorem C9_shared_message_list_witness:
  "construct F_EAN13 ''12'' = Inl (ProductCodeError (Some (Text ''EAN13: wrong number of digits'')))
   \<and> construct F_ISBN10 ''0-9669553-0-8'' = Inl (ProductCodeError (Some (Text ''ISBN10: checksum error'')))
   \<and> raised (construct F_ISBN10 ''0-9669553-0-8'') (raised (construct F_EAN13 ''12'') [])
       = [Text ''EAN13: wrong number of digits'', Text ''ISBN10: checksum error'']
   \<and> sublist ''EAN13: wrong number of digits''
       (ProductCodeError_str (\<lambda>c. [c])
          (raised (construct F_ISBN10 ''0-9669553-0-8'') (raised (construct F_EAN13 ''12'') [])))
   \<and> ProductCodeError_str (\<lambda>c. [c])
          (raised (construct F_ISBN10 ''0-9669553-0-8'') (raised (construct F_EAN13 ''12'') []))
       \<noteq> ProductCodeError_str (\<lambda>c. [c]) (raised (construct F_ISBN10 ''0-9669553-0-8'') [])"
proof -
  have a: "construct F_EAN13 ''12''
      = Inl (ProductCodeError (Some (Text ''EAN13: wrong number of digits'')))"
    by code_simp
  have b: "construct F_ISBN10 ''0-9669553-0-8''
      = Inl (ProductCodeError (Some (Text ''ISBN10: checksum error'')))"
    by code_simp
  from C9_shared_message_list [OF a b, of "[]" "\<lambda>c. [c]"]
  obtain t1 t2 where t: "Some (Text ''EAN13: wrong number of digits'') = Some t1"
      "Some (Text ''ISBN10: checksum error'') = Some t2"
    and r: "raised (construct F_ISBN10 ''0-9669553-0-8'') (raised (construct F_EAN13 ''12'') [])
       = [] @ [t1, t2]"
    and s: "sublist (msg_text (\<lambda>c. [c]) t1)
       (ProductCodeError_str (\<lambda>c. [c])
          (raised (construct F_ISBN10 ''0-9669553-0-8'') (raised (construct F_EAN13 ''12'') [])))"
    and d: "ProductCodeError_str (\<lambda>c. [c])
          (raised (construct F_ISBN10 ''0-9669553-0-8'') (raised (construct F_EAN13 ''12'') []))
       \<noteq> ProductCodeError_str (\<lambda>c. [c]) (raised (construct F_ISBN10 ''0-9669553-0-8'') [])"
    by (elim exE conjE)
  from t have t1: "t1 = Text ''EAN13: wrong number of digits''"
    and t2: "t2 = Text ''ISBN10: checksum error''" by simp_all
  from r have r': "raised (construct F_ISBN10 ''0-9669553-0-8'') (raised (construct F_EAN13 ''12'') [])
       = [Text ''EAN13: wrong number of digits'', Text ''ISBN10: checksum error'']"
    by (simp only: t1 t2 append_Nil)
  from s have s': "sublist ''EAN13: wrong number of digits''
       (ProductCodeError_str (\<lambda>c. [c])
          (raised (construct F_ISBN10 ''0-9669553-0-8'') (raised (construct F_EAN13 ''12'') [])))"
    by (simp only: t1 msg_text.simps)
  from a b r' s' d show ?thesis by (intro conjI)
qed

subsection \<open>The values of the digits\<close>

lemma parse_other_values:
  "parse_other m cs = Inr ds \<Longrightarrow> Some d \<in> set ds \<Longrightarrow> \<exists>c. map_of m c = Some (IntV d)"
proof (induction cs arbitrary: ds)
  case Nil
  then show ?case by simp
next
  case (Cons c cs)
  from Cons.prems(1) obtain v ds' where v: "map_of m c = Some v"
    and ds': "parse_other m cs = Inr ds'" and ds: "ds = keep v @ ds'"
    by (auto split: option.splits sum.splits)
  from Cons.prems(2) ds have "Some d \<in> set (keep v) \<or> Some d \<in> set ds'" by simp
  then show ?case
  proof
    assume "Some d \<in> set (keep v)"
    then have "v = IntV d" by (cases v) auto
    with v show ?thesis by blast
  next
    assume "Some d \<in> set ds'"
    with Cons.IH [OF ds'] show ?thesis .
  qed
qed

lemma parse_values:
  assumes "parse str fm lm om = Inr ds" and "Some d \<in> set ds"
  shows "(\<exists>c. map_of fm c = Some (IntV d)) \<or> (\<exists>c. map_of om c = Some (IntV d))
       \<or> (\<exists>c. map_of lm c = Some (IntV d))"
proof -
  from assms(1) obtain d0 mid dl where d0: "map_of fm (hd str) = Some d0"
    and mid: "parse_other om (butlast (tl str)) = Inr mid"
    and dl: "map_of lm (last str) = Some dl" and ds: "ds = keep d0 @ mid @ keep dl"
    unfolding parse_Inr_iff by blast
  from assms(2) ds consider "Some d \<in> set (keep d0)" | "Some d \<in> set mid" | "Some d \<in> set (keep dl)"
    by auto
  then show ?thesis
  proof cases
    case 1
    then have "d0 = IntV d" by (cases d0) auto
    with d0 show ?thesis by blast
  next
    case 2
    with parse_other_values [OF mid] show ?thesis by blast
  next
    case 3
    then have "dl = IntV d" by (cases dl) auto
    with dl show ?thesis by blast
  qed
qed

text \<open>
  The digits of a constructed code, when every integer of the character maps lies between
  0 and a bound of at least 9.
\<close>

lemma ProductCode_init_digits:
  assumes init: "ProductCode_init f str = Inr pc"
    and maps: "\<And>c d. map_of (firstCharMap f) c = Some (IntV d) \<or> map_of (otherCharMap f) c = Some (IntV d)
        \<or> map_of (lastCharMap f) c = Some (IntV d) \<Longrightarrow> 0 \<le> d \<and> d \<le> B"
    and B: "9 \<le> B"
  shows "\<exists>dl. digits pc = map Some dl \<and> length dl = length (weights f)
      \<and> (\<forall>d\<in>set dl. 0 \<le> d \<and> d \<le> B)"
proof -
  from init obtain ds0 i where
    p: "parse str (firstCharMap f) (lastCharMap f) (otherCharMap f) = Inr ds0"
    and r: "resolveChecksum f ds0 = Inr (digits pc, i)"
    by (rule ProductCode_init_Inr)
  have parsed_ok: "0 \<le> d \<and> d \<le> B" if "Some d \<in> set ds0" for d
    using parse_values [OF p that] maps by blast
  from r show ?thesis
  proof (cases rule: resolveChecksum_cases)
    case (none dl)
    have "\<forall>d\<in>set dl. 0 \<le> d \<and> d \<le> B"
    proof
      fix d assume "d \<in> set dl"
      then have "Some d \<in> set ds0" by (simp add: none(1))
      then show "0 \<le> d \<and> d \<le> B" by (rule parsed_ok)
    qed
    with none show ?thesis by (intro exI [of _ dl]) simp
  next
    case (wild pre post v)
    have "\<forall>d\<in>set (pre @ v # post). 0 \<le> d \<and> d \<le> B"
    proof
      fix d assume "d \<in> set (pre @ v # post)"
      then consider "d = v" | "d \<in> set pre \<or> d \<in> set post" by auto
      then show "0 \<le> d \<and> d \<le> B"
      proof cases
        case 1
        with wild(3,4) B show ?thesis by simp
      next
        case 2
        then have "Some d \<in> set ds0" by (auto simp: wild(1))
        then show ?thesis by (rule parsed_ok)
      qed
    qed
    with wild show ?thesis by (intro exI [of _ "pre @ v # post"]) simp
  qed
qed

lemma digitMap_values: "map_of digitMap c = Some (IntV d) \<Longrightarrow> 0 \<le> d \<and> d \<le> 9"
  by (auto simp: digitMap_def split: if_splits)

lemma UPC_map_values:
  "map_of UPC_firstCharMap c = Some (IntV d) \<Longrightarrow> 0 \<le> d \<and> d \<le> 9"
  "map_of UPC_otherCharMap c = Some (IntV d) \<Longrightarrow> 0 \<le> d \<and> d \<le> 9"
  "map_of UPC_lastCharMap c = Some (IntV d) \<Longrightarrow> 0 \<le> d \<and> d \<le> 9"
  using digitMap_values [of c d]
  by (auto simp: UPC_firstCharMap_def UPC_otherCharMap_def UPC_lastCharMap_def makeCharMap_def
      split: if_splits)

lemma EAN13_weights_length: "length (weights (EAN13_format ty lbl)) = 13"
  by (simp add: EAN13_weights)

lemma EAN13_digits:
  assumes "ProductCode_init (EAN13_format ty lbl) str = Inr pc"
  shows "\<exists>dl. digits pc = map Some dl \<and> length dl = 13 \<and> (\<forall>d\<in>set dl. 0 \<le> d \<and> d \<le> 9)"
proof -
  have "\<exists>dl. digits pc = map Some dl \<and> length dl = length (weights (EAN13_format ty lbl))
      \<and> (\<forall>d\<in>set dl. 0 \<le> d \<and> d \<le> 9)"
    using assms
  proof (rule ProductCode_init_digits)
    fix c d
    assume "map_of (firstCharMap (EAN13_format ty lbl)) c = Some (IntV d)
        \<or> map_of (otherCharMap (EAN13_format ty lbl)) c = Some (IntV d)
        \<or> map_of (lastCharMap (EAN13_format ty lbl)) c = Some (IntV d)"
    then show "0 \<le> d \<and> d \<le> 9"
      using UPC_map_values [of c d] by (auto simp: EAN13_format_def)
  qed simp
  then show ?thesis by (simp only: EAN13_weights_length)
qed

subsection \<open>The bit patterns\<close>

lemma py_index_in_range:
  "0 \<le> i \<Longrightarrow> i < int (length xs) \<Longrightarrow> py_index xs i = Some (xs ! nat i)"
  by (simp add: py_index_def Let_def)

text \<open>A successful \<open>setbits\<close> is the concatenation of the codes it looked up.\<close>

lemma setbits_loop_Inr:
  assumes "setbits_loop pat bitchar (map Some dl) acc = Inr b"
    and "\<forall>d\<in>set dl. 0 \<le> d \<and> d < int (length bitchar)"
  shows "b = acc @ concat (map2 (digit_code bitchar) dl pat) \<and> length dl \<le> length pat"
  using assms
proof (induction dl arbitrary: pat acc)
  case Nil
  then show ?case by simp
next
  case (Cons d dl)
  from Cons.prems(1) obtain parity pat' where pat: "pat = parity # pat'"
    by (cases pat) auto
  from Cons.prems(2) have d: "0 \<le> d" "d < int (length bitchar)" by simp_all
  then have idx: "py_index bitchar d = Some (bitchar ! nat d)" by (rule py_index_in_range)
  from Cons.prems(1) pat idx obtain bitstr where
    look: "map_of (bitchar ! nat d) parity = Some bitstr"
    and rec: "setbits_loop pat' bitchar (map Some dl) (acc @ bitstr) = Inr b"
    by (auto split: option.splits)
  from Cons.prems(2) have "\<forall>d\<in>set dl. 0 \<le> d \<and> d < int (length bitchar)" by simp
  from Cons.IH [OF rec this]
  have "b = (acc @ bitstr) @ concat (map2 (digit_code bitchar) dl pat')" "length dl \<le> length pat'"
    by simp_all
  moreover from look have "digit_code bitchar d parity = bitstr" by (simp add: digit_code_def)
  ultimately show ?case by (simp add: pat)
qed

lemma map2_nth:
  assumes "length xs = n" "length ys = n"
  shows "map2 f xs ys = map (\<lambda>i. f (xs ! i) (ys ! i)) [0..<n]"
  using assms by (intro nth_equalityI) simp_all

lemma concat_all_length:
  "\<forall>x\<in>set xs. length x = k \<Longrightarrow> length (concat xs) = k * length xs"
  by (induction xs) simp_all

lemma EAN13_code:
  assumes "0 \<le> d" "d \<le> 9" "column \<in> {CHR ''A'', CHR ''B'', CHR ''C''}"
  shows "length (digit_code EAN13BITS d column) = 7
       \<and> set (digit_code EAN13BITS d column) \<subseteq> {CHR ''0'', CHR ''1''}"
proof -
  from assms(1,2) have "d \<in> set [0, 1, 2, 3, 4, 5, 6, 7, 8, 9::int]" by (rule candidates_sup)
  then have "d = 0 \<or> d = 1 \<or> d = 2 \<or> d = 3 \<or> d = 4 \<or> d = 5 \<or> d = 6 \<or> d = 7 \<or> d = 8 \<or> d = 9"
    by simp
  with assms(3) show ?thesis
    by (elim disjE insertE emptyE) (simp_all add: digit_code_def EAN13BITS_def)
qed

lemma EAN13_parity:
  assumes "0 \<le> d" "d \<le> 9"
  shows "py_index EAN13PARITY d = Some (EAN13PARITY ! nat d)
       \<and> length (EAN13PARITY ! nat d) = 12
       \<and> set (EAN13PARITY ! nat d) \<subseteq> {CHR ''A'', CHR ''B'', CHR ''C''}"
proof -
  from assms have "d \<in> set [0, 1, 2, 3, 4, 5, 6, 7, 8, 9::int]" by (rule candidates_sup)
  then have "d = 0 \<or> d = 1 \<or> d = 2 \<or> d = 3 \<or> d = 4 \<or> d = 5 \<or> d = 6 \<or> d = 7 \<or> d = 8 \<or> d = 9"
    by simp
  then show ?thesis
    by (elim disjE) (simp_all add: py_index_def EAN13PARITY_def)
qed

lemma EAN13_init_bits:
  assumes "EAN13_init ty lbl str = Inr pc"
  shows "\<exists>dl. digits pc = map Some dl \<and> length dl = 13 \<and> (\<forall>d\<in>set dl. 0 \<le> d \<and> d \<le> 9)
     \<and> bits pc = EAN13_symbol dl \<and> length (bits pc) = 95
     \<and> (\<forall>p\<in>{1..12}.
           length (digit_code EAN13BITS (dl ! p) (EAN13PARITY ! nat (dl ! 0) ! (p - 1))) = 7
           \<and> set (digit_code EAN13BITS (dl ! p) (EAN13PARITY ! nat (dl ! 0) ! (p - 1)))
               \<subseteq> {CHR ''0'', CHR ''1''})"
proof -
  from assms obtain pc0 d0 rest parityPattern b where
    pc0: "ProductCode_init (EAN13_format ty lbl) str = Inr pc0"
    and first: "digits pc0 = Some d0 # rest"
    and pat: "py_index EAN13PARITY d0 = Some parityPattern"
    and sb: "setbits parityPattern EAN13BITS rest = Inr b"
    and pc: "pc = pc0\<lparr>bits := ''L0L'' @ take 42 b @ ''0L0L0'' @ drop 42 b @ ''L0L''\<rparr>"
    by (rule EAN13_init_Inr)
  from EAN13_digits [OF pc0] obtain dl where dl: "digits pc0 = map Some dl"
    and len: "length dl = 13" and range: "\<forall>d\<in>set dl. 0 \<le> d \<and> d \<le> 9"
    by blast
  from len obtain dl' where dl_eq: "dl = d0 # dl'" and rest: "rest = map Some dl'"
    using first dl by (cases dl) auto
  from len dl_eq have len': "length dl' = 12" by simp
  have d0: "d0 = dl ! 0" by (simp add: dl_eq)
  from range dl_eq have d0_range: "0 \<le> d0" "d0 \<le> 9" by simp_all
  from EAN13_parity [OF d0_range] pat
  have pat_eq: "parityPattern = EAN13PARITY ! nat d0" and pat_len: "length parityPattern = 12"
    and pat_set: "set parityPattern \<subseteq> {CHR ''A'', CHR ''B'', CHR ''C''}"
    by simp_all
  define g where "g p = digit_code EAN13BITS (dl ! p) (parityPattern ! (p - 1))" for p
  have g7: "length (g p) = 7 \<and> set (g p) \<subseteq> {CHR ''0'', CHR ''1''}" if "1 \<le> p" "p \<le> 12" for p
  proof -
    from that len have "dl ! p \<in> set dl" by (intro nth_mem) simp
    with range have "0 \<le> dl ! p" "dl ! p \<le> 9" by simp_all
    moreover from that pat_len have "parityPattern ! (p - 1) \<in> set parityPattern"
      by (intro nth_mem) simp
    with pat_set have "parityPattern ! (p - 1) \<in> {CHR ''A'', CHR ''B'', CHR ''C''}" by blast
    ultimately show ?thesis unfolding g_def by (rule EAN13_code)
  qed
  have "\<forall>d\<in>set dl'. 0 \<le> d \<and> d < int (length EAN13BITS)"
    using range dl_eq by (auto simp: EAN13BITS_def)
  with sb rest have "b = [] @ concat (map2 (digit_code EAN13BITS) dl' parityPattern)"
    unfolding setbits_def using setbits_loop_Inr by blast
  also have "map2 (digit_code EAN13BITS) dl' parityPattern
      = map (\<lambda>i. digit_code EAN13BITS (dl' ! i) (parityPattern ! i)) [0..<12]"
    using len' pat_len by (rule map2_nth)
  also have "\<dots> = map (\<lambda>i. g (Suc i)) [0..<12]"
    by (simp add: g_def dl_eq)
  also have "\<dots> = map g (map Suc [0..<12])" by (simp add: comp_def)
  also have "map Suc [0..<12] = [1..<7] @ [7..<13]"
    by (simp add: map_Suc_upt upt_rec [of _ 13] upt_rec [of _ 7])
  finally have b: "b = concat (map g [1..<7]) @ concat (map g [7..<13])" by simp
  have "\<forall>x\<in>set (map g [1..<7]). length x = 7" using g7 by auto
  then have l1: "length (concat (map g [1..<7])) = 42"
    using concat_all_length [of "map g [1..<7]" 7] by simp
  have "\<forall>x\<in>set (map g [7..<13]). length x = 7" using g7 by auto
  then have l2: "length (concat (map g [7..<13])) = 42"
    using concat_all_length [of "map g [7..<13]" 7] by simp
  from b l1 have tk: "take 42 b = concat (map g [1..<7])"
    and dr: "drop 42 b = concat (map g [7..<13])" by simp_all
  have bits: "bits pc = ''L0L'' @ concat (map g [1..<7]) @ ''0L0L0'' @ concat (map g [7..<13]) @ ''L0L''"
    by (simp only: pc tk dr) simp
  have sym: "EAN13_symbol dl
      = ''L0L'' @ concat (map g [1..<7]) @ ''0L0L0'' @ concat (map g [7..<13]) @ ''L0L''"
    unfolding EAN13_symbol_def Let_def g_def pat_eq d0 ..
  have total: "length (bits pc) = 95" by (simp only: bits length_append l1 l2) simp
  have codes: "\<forall>p\<in>{1..12}.
           length (digit_code EAN13BITS (dl ! p) (EAN13PARITY ! nat (dl ! 0) ! (p - 1))) = 7
           \<and> set (digit_code EAN13BITS (dl ! p) (EAN13PARITY ! nat (dl ! 0) ! (p - 1)))
               \<subseteq> {CHR ''0'', CHR ''1''}"
  proof
    fix p :: nat assume "p \<in> {1..12}"
    then have "1 \<le> p" "p \<le> 12" by simp_all
    from g7 [OF this] show "length (digit_code EAN13BITS (dl ! p) (EAN13PARITY ! nat (dl ! 0) ! (p - 1))) = 7
           \<and> set (digit_code EAN13BITS (dl ! p) (EAN13PARITY ! nat (dl ! 0) ! (p - 1)))
               \<subseteq> {CHR ''0'', CHR ''1''}"
      unfolding g_def pat_eq d0 .
  qed
  have "digits pc = map Some dl" by (simp add: pc dl)
  with len range bits sym total codes show ?thesis
    by (intro exI [of _ dl] conjI) simp_all
qed

text \<open>
  Claim C2: the bit pattern of every successfully constructed EAN13, ISBN13 or ISMN13 code
  is the left guard \<^verbatim>\<open>L0L\<close>, the codes of digits 1 to 6 under the parity pattern of the
  leading digit, the centre \<^verbatim>\<open>0L0L0\<close>, the codes of digits 7 to 12, and the right guard
  \<^verbatim>\<open>L0L\<close>. The code has thirteen digits from 0 to 9, each code is seven symbols \<^verbatim>\<open>0\<close>
  or \<^verbatim>\<open>1\<close> (so each half is 42 symbols and \<^verbatim>\<open>L\<close> is a third symbol), and the pattern is
  95 symbols long.
\<close>

theorem C2_EAN13_family_bit_pattern:
  assumes "f = F_EAN13 \<or> f = F_ISBN13 \<or> f = F_ISMN13" and "construct f str = Inr pc"
  shows "\<exists>dl. digits pc = map Some dl \<and> length dl = 13 \<and> (\<forall>d\<in>set dl. 0 \<le> d \<and> d \<le> 9)
     \<and> bits pc = EAN13_symbol dl \<and> length (bits pc) = 95
     \<and> (\<forall>p\<in>{1..12}.
           length (digit_code EAN13BITS (dl ! p) (EAN13PARITY ! nat (dl ! 0) ! (p - 1))) = 7
           \<and> set (digit_code EAN13BITS (dl ! p) (EAN13PARITY ! nat (dl ! 0) ! (p - 1)))
               \<subseteq> {CHR ''0'', CHR ''1''})"
proof -
  from assms(1) consider "f = F_EAN13" | "f = F_ISBN13" | "f = F_ISMN13" by blast
  then have "EAN13_init ''EAN13'' ''EAN13'' str = Inr pc \<or> EAN13_init ''ISBN13'' ''ISBN'' str = Inr pc
      \<or> EAN13_init ''ISMN13'' ''ISMN'' str = Inr pc"
  proof cases
    case 1
    with assms(2) show ?thesis by (simp add: EAN13_def)
  next
    case 2
    with assms(2) show ?thesis
      by (simp add: ISBN13_def split: sum.splits option.splits bool.splits)
  next
    case 3
    with assms(2) show ?thesis
      by (simp add: ISMN13_def split: sum.splits option.splits bool.splits)
  qed
  then show ?thesis using EAN13_init_bits by (elim disjE)
qed

theorem C2_EAN13_family_bit_pattern_witness:
  "construct F_ISBN13 ''978-0-9669553-0-*''
     = Inr \<lparr>ctype = ''ISBN13'', clabel = ''ISBN'', givenString = ''978-0-9669553-0-*'',
            code_s = ''978-0-9669553-0-9'',
            digits = [Some 9, Some 7, Some 8, Some 0, Some 9, Some 6, Some 6, Some 9,
                      Some 5, Some 5, Some 3, Some 0, Some 9],
            checkDigit = Some 9,
            bits = ''L0L0111011000100101001110001011000010101011110L0L0111010010011101001110100001011100101110100L0L''\<rparr>
   \<and> EAN13_symbol [9, 7, 8, 0, 9, 6, 6, 9, 5, 5, 3, 0, 9]
     = ''L0L0111011000100101001110001011000010101011110L0L0111010010011101001110100001011100101110100L0L''"
  (is "_ = Inr ?pc \<and> _")
proof -
  have a: "construct F_ISBN13 ''978-0-9669553-0-*'' = Inr ?pc" by code_simp
  have "F_ISBN13 = F_EAN13 \<or> F_ISBN13 = F_ISBN13 \<or> F_ISBN13 = F_ISMN13" by simp
  from C2_EAN13_family_bit_pattern [OF this a]
  obtain dl where d: "digits ?pc = map Some dl" and b: "bits ?pc = EAN13_symbol dl"
    by (elim exE conjE)
  from d have "map Some dl = map Some [9, 7, 8, 0, 9, 6, 6, 9, 5, 5, 3, 0, 9]" by simp
  then have "dl = [9, 7, 8, 0, 9, 6, 6, 9, 5, 5, 3, 0, 9]"
    by (simp only: inj_map_eq_map [OF inj_Some])
  with b have "EAN13_symbol [9, 7, 8, 0, 9, 6, 6, 9, 5, 5, 3, 0, 9] = bits ?pc" by simp
  with a show ?thesis by simp
qed

subsection \<open>Digits and their characters\<close>

lemma digit_cases:
  fixes d :: int
  assumes "0 \<le> d" "d \<le> 9"
  shows "d = 0 \<or> d = 1 \<or> d = 2 \<or> d = 3 \<or> d = 4 \<or> d = 5 \<or> d = 6 \<or> d = 7 \<or> d = 8 \<or> d = 9"
  using candidates_sup [OF assms] by simp

lemma digit_char_simps:
  "digit_char 0 = CHR ''0''" "digit_char 1 = CHR ''1''" "digit_char 2 = CHR ''2''"
  "digit_char 3 = CHR ''3''" "digit_char 4 = CHR ''4''" "digit_char 5 = CHR ''5''"
  "digit_char 6 = CHR ''6''" "digit_char 7 = CHR ''7''" "digit_char 8 = CHR ''8''"
  "digit_char 9 = CHR ''9''"
  by (simp_all add: digit_char_def digit_chars_def)

lemma digitMap_Some:
  "map_of digitMap c = Some v \<Longrightarrow> \<exists>d. 0 \<le> d \<and> d \<le> 9 \<and> c = digit_char d \<and> v = IntV d"
  by (auto simp: digitMap_def digit_char_simps split: if_splits)

lemma digitMap_digit_char:
  assumes "0 \<le> d" "d \<le> 9"
  shows "map_of digitMap (digit_char d) = Some (IntV d)"
  using digit_cases [OF assms] by (elim disjE) (simp_all add: digit_char_simps digitMap_def)

lemma digit_char_plain:
  assumes "0 \<le> d" "d \<le> 9"
  shows "upper_char (digit_char d) = digit_char d \<and> digit_char d \<noteq> CHR ''*''
       \<and> digit_char d \<noteq> CHR ''-'' \<and> digit_char d \<noteq> CHR '' ''"
  using digit_cases [OF assms] by (elim disjE) (simp_all add: digit_char_simps upper_char_def)

lemma int2char_base_digit:
  "0 \<le> d \<Longrightarrow> d \<le> 9 \<Longrightarrow> int2char_base ty d = Inr [digit_char d]"
  by (simp add: int2char_base_def digit_char_def)

lemma int2char_ISBN10_digit:
  "0 \<le> d \<Longrightarrow> d \<le> 9 \<Longrightarrow> int2char_ISBN10 ty d = Inr [digit_char d]"
  by (simp add: int2char_ISBN10_def digit_char_def)

lemma sub_star_map: "sub_star [c] str = map (\<lambda>x. if x = CHR ''*'' then c else x) str"
  by (induction str) (simp_all add: sub_star_def)

lemma those_map_Some [simp]: "those (map Some dl) = Some dl"
  by (induction dl) simp_all

lemma checksum_ok_map_Some:
  assumes "length dl = length (weights f)"
  shows "checksum_ok f (map Some dl) \<longleftrightarrow> sum_list (map2 (*) dl (weights f)) mod magic f = 0"
proof -
  have "map2 (*) dl (weights f) = map (\<lambda>i. dl ! i * weights f ! i) [0..<length dl]"
    using refl assms [symmetric] by (rule map2_nth)
  with assms show ?thesis by (simp add: checksum_ok_def)
qed

lemma wild_split_unique:
  assumes "map Some pre @ None # map Some post = map Some pre' @ None # map Some post'"
  shows "pre = pre' \<and> post = post'"
  using assms
proof (induction pre arbitrary: pre')
  case Nil
  then show ?case by (cases pre') (auto simp: inj_map_eq_map [OF inj_Some])
next
  case (Cons a pre)
  then show ?case by (cases pre') auto
qed

lemma parse_other_digitMap:
  "parse_other digitMap cs = Inr ds \<Longrightarrow>
     \<exists>dl. ds = map Some dl \<and> cs = map digit_char dl \<and> (\<forall>d\<in>set dl. 0 \<le> d \<and> d \<le> 9)"
proof (induction cs arbitrary: ds)
  case Nil
  then show ?case by simp
next
  case (Cons c cs)
  from Cons.prems obtain v ds' where v: "map_of digitMap c = Some v"
    and ds': "parse_other digitMap cs = Inr ds'" and ds: "ds = keep v @ ds'"
    by (auto split: option.splits sum.splits)
  from digitMap_Some [OF v] obtain d where d: "0 \<le> d" "d \<le> 9" "c = digit_char d" "v = IntV d"
    by blast
  from Cons.IH [OF ds'] obtain dl where dl: "ds' = map Some dl" "cs = map digit_char dl"
    "\<forall>d\<in>set dl. 0 \<le> d \<and> d \<le> 9" by blast
  from d dl ds show ?case by (intro exI [of _ "d # dl"]) simp
qed

subsection \<open>The UPC-5 add-on\<close>

lemma UPC5_format_simps:
  "firstCharMap UPC5_format = digitMap" "otherCharMap UPC5_format = digitMap"
  "lastCharMap UPC5_format = (CHR ''*'', NoneV) # digitMap"
  "weights UPC5_format = [3, 9, 3, 9, 3, -1]" "magic UPC5_format = 10"
  "int2char UPC5_format = int2char_base ''UPC5''" "ftype UPC5_format = ''UPC5''"
  "flabel UPC5_format = []"
  by (simp_all add: UPC5_format_def makeCharMap_def)

lemma UPC5_parse:
  assumes "parse (str @ ''*'') digitMap ((CHR ''*'', NoneV) # digitMap) digitMap = Inr ds0"
  shows "\<exists>dl. ds0 = map Some dl @ [None] \<and> str = map digit_char dl
      \<and> (\<forall>d\<in>set dl. 0 \<le> d \<and> d \<le> 9)"
proof (cases str)
  case Nil
  with assms show ?thesis by (simp add: parse_def digitMap_def)
next
  case (Cons c cs)
  from assms obtain d0 mid where d0: "map_of digitMap c = Some d0"
    and mid: "parse_other digitMap cs = Inr mid" and ds0: "ds0 = keep d0 @ mid @ [None]"
    unfolding parse_Inr_iff by (auto simp: Cons butlast_append)
  from d0 mid have "parse_other digitMap str = Inr (keep d0 @ mid)" by (simp add: Cons)
  from parse_other_digitMap [OF this] obtain dl where "keep d0 @ mid = map Some dl"
    "str = map digit_char dl" "\<forall>d\<in>set dl. 0 \<le> d \<and> d \<le> 9" by blast
  with ds0 show ?thesis by (intro exI [of _ dl]) simp
qed

lemma length_five: "length xs = 5 \<Longrightarrow> \<exists>a b c d e. xs = [a, b, c, d, e]"
  by (auto simp: length_Suc_conv eval_nat_numeral)

lemma UPC5_code:
  assumes "0 \<le> d" "d \<le> 9" "column \<in> {CHR ''O'', CHR ''E''}"
  shows "length (digit_code UPC5BITS d column) = 7"
  using digit_cases [OF assms(1,2)] assms(3)
  by (elim disjE insertE emptyE) (simp_all add: digit_code_def UPC5BITS_def UPCEBITS_def)

lemma UPC5_parity:
  assumes "0 \<le> d" "d \<le> 9"
  shows "py_index UPC5PARITY d = Some (UPC5PARITY ! nat d)
       \<and> (\<exists>p0 p1 p2 p3 p4. UPC5PARITY ! nat d = [p0, p1, p2, p3, p4]
             \<and> {p0, p1, p2, p3, p4} \<subseteq> {CHR ''O'', CHR ''E''})"
  using digit_cases [OF assms]
  by (elim disjE) (simp_all add: py_index_def UPC5PARITY_def)

lemma map_upper_digits:
  "\<forall>d\<in>set dl. 0 \<le> d \<and> d \<le> 9 \<Longrightarrow> upper (map digit_char dl) = map digit_char dl"
  using digit_char_plain by (simp add: upper_def)

lemma no_star_digits:
  "\<forall>d\<in>set dl. 0 \<le> d \<and> d \<le> 9 \<Longrightarrow> CHR ''*'' \<notin> set (map digit_char dl)"
proof
  assume range: "\<forall>d\<in>set dl. 0 \<le> d \<and> d \<le> 9" and "CHR ''*'' \<in> set (map digit_char dl)"
  then obtain d where "d \<in> set dl" "digit_char d = CHR ''*''" by auto
  with range digit_char_plain [of d] show False by simp
qed

lemma sub_star_no_star: "CHR ''*'' \<notin> set str \<Longrightarrow> sub_star c str = str"
  by (induction str) (auto simp: sub_star_def)

lemma sub_star_append: "sub_star c (xs @ ys) = sub_star c xs @ sub_star c ys"
  by (simp add: sub_star_def)

lemma mod10_unique:
  fixes S v :: int
  shows "(S - v) mod 10 = 0 \<Longrightarrow> 0 \<le> v \<Longrightarrow> v \<le> 9 \<Longrightarrow> v = S mod 10"
  by presburger

lemma mod10_solution:
  fixes S :: int
  shows "0 \<le> S mod 10 \<and> S mod 10 \<le> 9 \<and> (S - S mod 10) mod 10 = 0"
  by presburger

lemma UPC5_Inr:
  assumes "UPC5 str = Inr pc"
  shows "\<exists>dl cd. length dl = 5 \<and> (\<forall>d\<in>set dl. 0 \<le> d \<and> d \<le> 9) \<and> str = map digit_char dl
     \<and> parsed F_UPC5 str = Inr (map Some dl @ [None])
     \<and> cd = (3 * dl ! 0 + 9 * dl ! 1 + 3 * dl ! 2 + 9 * dl ! 3 + 3 * dl ! 4) mod 10
     \<and> digits pc = map Some (dl @ [cd]) \<and> checksum_ok UPC5_format (digits pc)
     \<and> checkDigit pc = Some cd \<and> code_s pc = str
     \<and> bits pc = UPC5_symbol dl cd \<and> length (bits pc) = 47"
proof -
  from assms obtain pc0 cd parityPattern b where
    init: "ProductCode_init UPC5_format (str @ ''*'') = Inr pc0"
    and cdig: "checkDigit pc0 = Some cd"
    and pat: "py_index UPC5PARITY cd = Some parityPattern"
    and sb: "setbits parityPattern UPC5BITS (take 5 (digits pc0)) = Inr b"
    and pc: "pc = pc0\<lparr>code_s := take 5 (code_s pc0),
                      bits := ''1011'' @ take 7 b @ ''01'' @ take 7 (drop 7 b) @ ''01''
                        @ take 7 (drop 14 b) @ ''01'' @ take 7 (drop 21 b) @ ''01''
                        @ take 7 (drop 28 b)\<rparr>"
    by (auto simp: UPC5_def split: sum.splits option.splits)
  from init obtain ds0 i where
    p: "parse (str @ ''*'') digitMap ((CHR ''*'', NoneV) # digitMap) digitMap = Inr ds0"
    and r: "resolveChecksum UPC5_format ds0 = Inr (digits pc0, i)"
    and s: "(i = None \<and> code_s pc0 = upper (str @ ''*''))
     \<or> (\<exists>n c. i = Some n \<and> int2char_base ''UPC5'' n = Inr c
            \<and> code_s pc0 = sub_star c (upper (str @ ''*'')))"
    and cd0: "checkDigit pc0 = last (digits pc0)"
    by (rule ProductCode_init_Inr) (simp add: UPC5_format_simps)
  from UPC5_parse [OF p] obtain dl where ds0: "ds0 = map Some dl @ [None]"
    and str: "str = map digit_char dl" and range: "\<forall>d\<in>set dl. 0 \<le> d \<and> d \<le> 9"
    by blast
  have parsed: "parsed F_UPC5 str = Inr (map Some dl @ [None])"
    using p ds0 by (simp add: parsed_def UPC5_format_simps)
  from r obtain v where v: "0 \<le> v" "v \<le> 9" and digs: "digits pc0 = map Some (dl @ [v])"
    and len6: "length (dl @ [v]) = 6"
    and alt: "(i = Some v \<and> sum_list (map2 (*) (dl @ [v]) [3, 9, 3, 9, 3, -1]) mod 10 = 0)
       \<or> (i = None \<and> v = 9
           \<and> (\<forall>u\<in>{0..9}. sum_list (map2 (*) (dl @ [u]) [3, 9, 3, 9, 3, -1]) mod 10 \<noteq> 0))"
  proof (cases rule: resolveChecksum_cases)
    case (none dl')
    have "None \<in> set ds0" by (simp add: ds0)
    then have "None \<in> set (map Some dl')" by (simp only: none(1))
    then show ?thesis by auto
  next
    case (wild pre post w)
    from wild(1) ds0 have "map Some pre @ None # map Some post = map Some dl @ None # map Some []"
      by simp
    then have "pre = dl \<and> post = []" by (rule wild_split_unique)
    with wild show ?thesis by (intro that [of w]) (simp_all add: UPC5_format_simps)
  qed
  from len6 have "length dl = 5" by simp
  then obtain a0 a1 a2 a3 a4 where dl: "dl = [a0, a1, a2, a3, a4]"
    using length_five by blast
  define S where "S = 3 * a0 + 9 * a1 + 3 * a2 + 9 * a3 + 3 * a4"
  have sum: "sum_list (map2 (*) (dl @ [u]) [3, 9, 3, 9, 3, -1]) = S - u" for u
    by (simp add: dl S_def)
  have solved: "i = Some v \<and> (S - v) mod 10 = 0"
  proof -
    from mod10_solution [of S] have mem: "S mod 10 \<in> {0..9}" and z: "(S - S mod 10) mod 10 = 0"
      by simp_all
    from alt show ?thesis unfolding sum
    proof (elim disjE conjE)
      assume "\<forall>u\<in>{0..9}. (S - u) mod 10 \<noteq> 0"
      from bspec [OF this mem] z show ?thesis by simp
    qed simp
  qed
  then have "(S - v) mod 10 = 0" ..
  from this v have v_eq: "v = S mod 10" by (rule mod10_unique)
  from cd0 cdig digs have cd: "cd = v" by simp
  from solved s v have "code_s pc0 = sub_star [digit_char v] (upper (str @ ''*''))"
    by (auto simp: int2char_base_digit)
  also have "upper (str @ ''*'') = str @ ''*''"
    using map_upper_digits [OF range] by (simp add: str upper_def upper_char_def)
  also have "sub_star [digit_char v] (str @ ''*'') = str @ [digit_char v]"
    using no_star_digits [OF range] by (simp add: sub_star_append sub_star_no_star str) (simp add: sub_star_def)
  finally have "take 5 (code_s pc0) = str" using \<open>length dl = 5\<close> by (simp add: str)
  then have code_s: "code_s pc = str" by (simp add: pc)
  from UPC5_parity [OF v] pat cd obtain p0 p1 p2 p3 p4 where
    pat_eq: "parityPattern = UPC5PARITY ! nat v" and pats: "UPC5PARITY ! nat v = [p0, p1, p2, p3, p4]"
    and cols: "{p0, p1, p2, p3, p4} \<subseteq> {CHR ''O'', CHR ''E''}"
    by auto
  have tk: "take 5 (digits pc0) = map Some dl" by (simp add: digs dl)
  have "\<forall>d\<in>set dl. 0 \<le> d \<and> d < int (length UPC5BITS)"
    using range by (auto simp: UPC5BITS_def UPCEBITS_def)
  with sb tk have "b = [] @ concat (map2 (digit_code UPC5BITS) dl parityPattern)"
    unfolding setbits_def using setbits_loop_Inr by metis
  then have b: "b = digit_code UPC5BITS a0 p0 @ digit_code UPC5BITS a1 p1 @ digit_code UPC5BITS a2 p2
      @ digit_code UPC5BITS a3 p3 @ digit_code UPC5BITS a4 p4"
    by (simp add: dl pat_eq pats)
  from range cols have l7: "length (digit_code UPC5BITS a0 p0) = 7" "length (digit_code UPC5BITS a1 p1) = 7"
    "length (digit_code UPC5BITS a2 p2) = 7" "length (digit_code UPC5BITS a3 p3) = 7"
    "length (digit_code UPC5BITS a4 p4) = 7"
    by (simp_all add: dl UPC5_code)
  have bits: "bits pc = ''1011'' @ digit_code UPC5BITS a0 p0 @ ''01'' @ digit_code UPC5BITS a1 p1
      @ ''01'' @ digit_code UPC5BITS a2 p2 @ ''01'' @ digit_code UPC5BITS a3 p3
      @ ''01'' @ digit_code UPC5BITS a4 p4"
    by (simp add: pc b l7)
  have sym: "UPC5_symbol dl cd = ''1011'' @ digit_code UPC5BITS a0 p0 @ ''01'' @ digit_code UPC5BITS a1 p1
      @ ''01'' @ digit_code UPC5BITS a2 p2 @ ''01'' @ digit_code UPC5BITS a3 p3
      @ ''01'' @ digit_code UPC5BITS a4 p4"
    by (simp add: UPC5_symbol_def Let_def cd pats dl)
  have total: "length (bits pc) = 47" by (simp add: bits l7)
  have digs': "digits pc = map Some (dl @ [cd])" by (simp add: pc digs cd)
  have "length (dl @ [cd]) = length (weights UPC5_format)"
    by (simp add: dl UPC5_format_simps)
  from checksum_ok_map_Some [OF this] solved
  have "checksum_ok UPC5_format (map Some (dl @ [cd]))"
    by (simp only: UPC5_format_simps sum cd)
  then have ok: "checksum_ok UPC5_format (digits pc)" by (simp only: digs')
  have cd_eq: "cd = (3 * dl ! 0 + 9 * dl ! 1 + 3 * dl ! 2 + 9 * dl ! 3 + 3 * dl ! 4) mod 10"
    by (simp add: cd v_eq S_def dl)
  have cdp: "checkDigit pc = Some cd" by (simp add: pc cdig)
  from \<open>length dl = 5\<close> range str parsed cd_eq digs' ok cdp code_s bits sym total
  show ?thesis by (intro exI [of _ dl] exI [of _ cd] conjI) simp_all
qed

text \<open>
  Claim C6: a successfully constructed UPC-5 code comes from five input digits. The check
  digit is computed in a sixth slot with the weights 3, 9, 3, 9, 3, -1 modulo 10 (it is
  the weighted sum of the five digits modulo 10), it selects the parity pattern, and it is
  left out of the normalized string (the five digits) and of the bit pattern, which is
  \<^verbatim>\<open>1011\<close> followed by the five codes with \<^verbatim>\<open>01\<close> between them: 47 symbols, no guard
  at the end.
\<close>

theorem C6_UPC5_check_digit_and_bit_pattern:
  assumes "UPC5 str = Inr pc"
  shows "\<exists>dl cd. length dl = 5 \<and> (\<forall>d\<in>set dl. 0 \<le> d \<and> d \<le> 9) \<and> str = map digit_char dl
     \<and> parsed F_UPC5 str = Inr (map Some dl @ [None])
     \<and> cd = (3 * dl ! 0 + 9 * dl ! 1 + 3 * dl ! 2 + 9 * dl ! 3 + 3 * dl ! 4) mod 10
     \<and> digits pc = map Some (dl @ [cd]) \<and> checksum_ok UPC5_format (digits pc)
     \<and> checkDigit pc = Some cd \<and> code_s pc = str
     \<and> bits pc = UPC5_symbol dl cd \<and> length (bits pc) = 47"
  using assms by (rule UPC5_Inr)

theorem C6_UPC5_witness:
  "UPC5 ''90000''
     = Inr \<lparr>ctype = ''UPC5'', clabel = [], givenString = ''90000*'', code_s = ''90000'',
            digits = [Some 9, Some 0, Some 0, Some 0, Some 0, Some 7], checkDigit = Some 7,
            bits = ''10110001011010100111010001101010100111010001101''\<rparr>
   \<and> UPC5_symbol [9, 0, 0, 0, 0] 7 = ''10110001011010100111010001101010100111010001101''"
  (is "_ = Inr ?pc \<and> _")
proof -
  have a: "UPC5 ''90000'' = Inr ?pc" by code_simp
  from C6_UPC5_check_digit_and_bit_pattern [OF a]
  obtain dl cd where len: "length dl = 5" and d: "digits ?pc = map Some (dl @ [cd])"
    and b: "bits ?pc = UPC5_symbol dl cd"
    by (elim exE conjE)
  from d have "map Some (dl @ [cd]) = map Some [9, 0, 0, 0, 0, 7]" by simp
  then have "dl @ [cd] = [9, 0, 0, 0, 0] @ [7]"
    by (simp only: inj_map_eq_map [OF inj_Some]) simp
  with len have "dl = [9, 0, 0, 0, 0]" "cd = 7" by simp_all
  with b have "UPC5_symbol [9, 0, 0, 0, 0] 7 = bits ?pc" by simp
  with a show ?thesis by simp
qed

subsection \<open>A non-empty string raises nothing but ProductCodeError\<close>

lemma remainder_Some_kind:
  "remainder f (map Some dl) = Inl e \<Longrightarrow> \<exists>m. e = ProductCodeError m"
  unfolding remainder_map_Some by (auto split: if_splits)

lemma solve_wildcard_kind:
  "solve_wildcard f (map Some pre @ y # map Some post) (length pre) cands = Inl e
     \<Longrightarrow> \<exists>m. e = ProductCodeError m"
proof (induction cands arbitrary: y)
  case Nil
  then show ?case by simp
next
  case (Cons c cands)
  have upd: "(map Some pre @ y # map Some post)[length pre := Some c] = map Some (pre @ c # post)"
    by (simp add: list_update_append)
  show ?case
  proof (cases "remainder f (map Some (pre @ c # post))")
    case (Inl e')
    with Cons.prems have "e' = e" by (simp add: upd del: map_append)
    with Inl show ?thesis using remainder_Some_kind by blast
  next
    case (Inr r)
    show ?thesis
    proof (cases "r = 0")
      case True
      with Inr Cons.prems show ?thesis by (simp add: upd del: map_append)
    next
      case False
      with Inr Cons.prems
      have "solve_wildcard f (map Some (pre @ c # post)) (length pre) cands = Inl e"
        by (simp add: upd del: map_append)
      then have "solve_wildcard f (map Some pre @ Some c # map Some post) (length pre) cands = Inl e"
        by simp
      then show ?thesis by (rule Cons.IH)
    qed
  qed
qed

lemma resolveChecksum_kind:
  assumes "resolveChecksum f ds0 = Inl e"
  shows "\<exists>m. e = ProductCodeError m"
proof -
  consider "count_list ds0 None = 0" | "count_list ds0 None = 1" | "2 \<le> count_list ds0 None"
    by linarith
  then show ?thesis
  proof cases
    case 1
    then obtain dl where "ds0 = map Some dl" using count_None_zero by blast
    with 1 assms show ?thesis
      using remainder_Some_kind [of f dl]
      by (auto simp: resolveChecksum_def split: sum.splits if_splits)
  next
    case 2
    then obtain pre post where "ds0 = map Some pre @ None # map Some post"
      "index_None ds0 = length pre"
      using count_None_one by blast
    with 2 assms have "solve_wildcard f (map Some pre @ None # map Some post) (length pre)
        [0, 1, 2, 3, 4, 5, 6, 7, 8, 9] = Inl e"
      by (simp add: resolveChecksum_def del: solve_wildcard.simps)
    then show ?thesis by (rule solve_wildcard_kind)
  next
    case 3
    with assms show ?thesis by (auto simp: resolveChecksum_def)
  qed
qed

lemma sub_star_nonempty: "str \<noteq> [] \<Longrightarrow> c \<noteq> [] \<Longrightarrow> sub_star c str \<noteq> []"
  by (cases str) (simp_all add: sub_star_def)

lemma realityCheck_kind:
  "str \<noteq> [] \<Longrightarrow> realityCheck f ds str = Inl e \<Longrightarrow> \<exists>m. e = ProductCodeError m"
  by (auto simp: realityCheck_def split: if_splits)

lemma realityCheck_Inr_length:
  "realityCheck f ds str = Inr u \<Longrightarrow> length ds = length (weights f)"
  by (auto simp: realityCheck_def reality_msgs_def split: if_splits)

lemma ProductCode_init_kind:
  assumes ne: "str \<noteq> []" and w: "weights f \<noteq> []"
    and i2c_err: "\<And>n e'. int2char f n = Inl e' \<Longrightarrow> \<exists>m. e' = ProductCodeError m"
    and i2c_ok: "\<And>n c. int2char f n = Inr c \<Longrightarrow> c \<noteq> []"
    and err: "ProductCode_init f str = Inl e"
  shows "\<exists>m. e = ProductCodeError m"
proof (cases "parse str (firstCharMap f) (lastCharMap f) (otherCharMap f)")
  case (Inl pe)
  with parse_nonempty [OF ne] obtain c where "pe = ParseKeyError c" by (cases pe) auto
  with Inl err show ?thesis by (auto simp: ProductCode_init_def)
next
  case p: (Inr ds0)
  show ?thesis
  proof (cases "resolveChecksum f ds0")
    case (Inl e')
    with p err have "e' = e" by (simp add: ProductCode_init_def)
    with Inl show ?thesis using resolveChecksum_kind by blast
  next
    case r: (Inr res)
    obtain ds i where res: "res = (ds, i)" by (cases res)
    have upper_ne: "upper str \<noteq> []" using ne by (simp add: upper_def)
    have after: "\<exists>m. e = ProductCodeError m"
      if rc: "(case realityCheck f ds s' of Inl e \<Rightarrow> Inl e
          | Inr u \<Rightarrow> if ds = [] then Inl IndexError
                     else Inr \<lparr>ctype = ftype f, clabel = flabel f, givenString = str,
                               code_s = s', digits = ds, checkDigit = last ds, bits = []\<rparr>) = Inl e"
        and s': "s' \<noteq> []" for s'
    proof (cases "realityCheck f ds s'")
      case (Inl e')
      with rc have "e' = e" by simp
      with Inl s' show ?thesis using realityCheck_kind by blast
    next
      case (Inr u)
      from realityCheck_Inr_length [OF Inr] w have "ds \<noteq> []" by auto
      with Inr rc show ?thesis by simp
    qed
    show ?thesis
    proof (cases i)
      case None
      with p r res err upper_ne show ?thesis by (intro after [of "upper str"]) (simp_all add: ProductCode_init_def)
    next
      case (Some n)
      show ?thesis
      proof (cases "int2char f n")
        case (Inl e')
        with p r res Some err have "e' = e" by (simp add: ProductCode_init_def)
        with Inl show ?thesis using i2c_err by blast
      next
        case (Inr c)
        from i2c_ok [OF Inr] upper_ne have "sub_star c (upper str) \<noteq> []" by (intro sub_star_nonempty)
        with p r res Some Inr err show ?thesis
          by (intro after [of "sub_star c (upper str)"]) (simp_all add: ProductCode_init_def)
      qed
    qed
  qed
qed

lemma format_of_wf:
  "weights (format_of f) \<noteq> []"
  "int2char (format_of f) n = Inl e' \<Longrightarrow> \<exists>m. e' = ProductCodeError m"
  "int2char (format_of f) n = Inr c \<Longrightarrow> c \<noteq> []"
  by (cases f; auto simp: EAN13_format_def ISBN10_format_def ISMN_format_def UPC5_format_def
      int2char_base_def int2char_ISBN10_def split: if_splits)+

lemma EAN13_format_wf:
  "weights (EAN13_format ty lbl) \<noteq> []"
  "int2char (EAN13_format ty lbl) n = Inl e' \<Longrightarrow> \<exists>m. e' = ProductCodeError m"
  "int2char (EAN13_format ty lbl) n = Inr c \<Longrightarrow> c \<noteq> []"
  by (auto simp: EAN13_format_def int2char_base_def split: if_splits)

lemma setbits_loop_succeeds:
  assumes "\<forall>d\<in>set dl. 0 \<le> d \<and> d < int (length bitchar)"
    and "length dl \<le> length pat"
    and "\<forall>d\<in>set dl. \<forall>column\<in>set pat. map_of (bitchar ! nat d) column \<noteq> None"
  shows "\<exists>b. setbits_loop pat bitchar (map Some dl) acc = Inr b"
  using assms
proof (induction dl arbitrary: pat acc)
  case Nil
  then show ?case by simp
next
  case (Cons d dl)
  from Cons.prems(2) obtain parity pat' where pat: "pat = parity # pat'" by (cases pat) auto
  from Cons.prems(1) have "0 \<le> d" "d < int (length bitchar)" by simp_all
  then have idx: "py_index bitchar d = Some (bitchar ! nat d)" by (rule py_index_in_range)
  from Cons.prems(3) pat obtain bitstr where look: "map_of (bitchar ! nat d) parity = Some bitstr"
    by auto
  have "\<exists>b. setbits_loop pat' bitchar (map Some dl) (acc @ bitstr) = Inr b"
    using Cons.prems pat by (intro Cons.IH) auto
  with idx look show ?case by (simp add: pat)
qed

lemma EAN13_lookup:
  assumes "0 \<le> d" "d \<le> 9" "column \<in> {CHR ''A'', CHR ''B'', CHR ''C''}"
  shows "map_of (EAN13BITS ! nat d) column \<noteq> None"
proof
  assume "map_of (EAN13BITS ! nat d) column = None"
  then have "digit_code EAN13BITS d column = []" by (simp add: digit_code_def)
  with EAN13_code [OF assms] show False by simp
qed

lemma EAN13_init_succeeds:
  assumes "ProductCode_init (EAN13_format ty lbl) str = Inr pc0"
  shows "\<exists>pc. EAN13_init ty lbl str = Inr pc"
proof -
  from EAN13_digits [OF assms] obtain dl where dl: "digits pc0 = map Some dl"
    and len: "length dl = 13" and range: "\<forall>d\<in>set dl. 0 \<le> d \<and> d \<le> 9"
    by blast
  from len obtain d0 dl' where dl_eq: "dl = d0 # dl'" by (cases dl) auto
  with len range have d0: "0 \<le> d0" "d0 \<le> 9" and len': "length dl' = 12" by simp_all
  from EAN13_parity [OF d0] have pat: "py_index EAN13PARITY d0 = Some (EAN13PARITY ! nat d0)"
    and pat_len: "length (EAN13PARITY ! nat d0) = 12"
    and pat_set: "set (EAN13PARITY ! nat d0) \<subseteq> {CHR ''A'', CHR ''B'', CHR ''C''}"
    by simp_all
  have "\<exists>b. setbits_loop (EAN13PARITY ! nat d0) EAN13BITS (map Some dl') [] = Inr b"
  proof (rule setbits_loop_succeeds)
    show "\<forall>d\<in>set dl'. 0 \<le> d \<and> d < int (length EAN13BITS)"
      using range dl_eq by (auto simp: EAN13BITS_def)
    show "length dl' \<le> length (EAN13PARITY ! nat d0)" by (simp add: len' pat_len)
    show "\<forall>d\<in>set dl'. \<forall>column\<in>set (EAN13PARITY ! nat d0). map_of (EAN13BITS ! nat d) column \<noteq> None"
    proof (intro ballI)
      fix d column
      assume "d \<in> set dl'" and "column \<in> set (EAN13PARITY ! nat d0)"
      with range dl_eq pat_set have "0 \<le> d" "d \<le> 9" "column \<in> {CHR ''A'', CHR ''B'', CHR ''C''}"
        by auto
      then show "map_of (EAN13BITS ! nat d) column \<noteq> None" by (rule EAN13_lookup)
    qed
  qed
  then obtain b where "setbits (EAN13PARITY ! nat d0) EAN13BITS (map Some dl') = Inr b"
    unfolding setbits_def ..
  with assms dl dl_eq pat show ?thesis by (simp add: EAN13_init_def)
qed

lemma EAN13_init_kind:
  assumes "str \<noteq> []" and "EAN13_init ty lbl str = Inl e"
  shows "\<exists>m. e = ProductCodeError m"
proof (cases "ProductCode_init (EAN13_format ty lbl) str")
  case (Inl e')
  with assms(2) have "e' = e" by (simp add: EAN13_init_def)
  with Inl have "ProductCode_init (EAN13_format ty lbl) str = Inl e" by simp
  then show ?thesis
  proof (rule ProductCode_init_kind [rotated 4])
    show "str \<noteq> []" by (rule assms(1))
    show "weights (EAN13_format ty lbl) \<noteq> []" by (rule EAN13_format_wf(1))
    show "\<exists>m. e' = ProductCodeError m" if "int2char (EAN13_format ty lbl) n = Inl e'" for n e'
      using that by (rule EAN13_format_wf(2))
    show "c \<noteq> []" if "int2char (EAN13_format ty lbl) n = Inr c" for n c
      using that by (rule EAN13_format_wf(3))
  qed
next
  case (Inr pc0)
  from EAN13_init_succeeds [OF this] assms(2) show ?thesis by auto
qed

lemma prefix_checked:
  assumes "EAN13_init ty lbl str = Inr c" and "length allowed = 3"
  shows "prefix_matches allowed str \<noteq> None"
  using EAN13_init_long [OF assms(1)] prefix_matches_None [of allowed str] assms(2) by auto

lemma ISBN13_kind:
  assumes "str \<noteq> []" and "ISBN13 str = Inl e"
  shows "\<exists>m. e = ProductCodeError m"
proof (cases "EAN13_init ''ISBN13'' ''ISBN'' str")
  case (Inl e')
  with assms(2) have "e' = e" by (simp add: ISBN13_def)
  with Inl assms(1) show ?thesis using EAN13_init_kind by blast
next
  case (Inr c)
  from prefix_checked [OF Inr, of "[''9*'', ''7*'', ''89*'']"] Inr assms(2)
  show ?thesis by (auto simp: ISBN13_def split: bool.splits)
qed

lemma ISMN13_kind:
  assumes "str \<noteq> []" and "ISMN13 str = Inl e"
  shows "\<exists>m. e = ProductCodeError m"
proof (cases "EAN13_init ''ISMN13'' ''ISMN'' str")
  case (Inl e')
  with assms(2) have "e' = e" by (simp add: ISMN13_def)
  with Inl assms(1) show ?thesis using EAN13_init_kind by blast
next
  case (Inr c)
  from prefix_checked [OF Inr, of "[''9*'', ''7*'', ''9*'']"] Inr assms(2)
  show ?thesis by (auto simp: ISMN13_def split: bool.splits)
qed

lemma ISBN10_kind:
  assumes "str \<noteq> []" and "ISBN10 str = Inl e"
  shows "\<exists>m. e = ProductCodeError m"
proof (cases "ProductCode_init ISBN10_format str")
  case (Inl e')
  with assms(2) have "e' = e" by (simp add: ISBN10_def)
  with Inl have "ProductCode_init (format_of F_ISBN10) str = Inl e" by simp
  then show ?thesis
  proof (rule ProductCode_init_kind [rotated 4])
    show "str \<noteq> []" by (rule assms(1))
    show "weights (format_of F_ISBN10) \<noteq> []" by (rule format_of_wf(1))
    show "\<exists>m. e' = ProductCodeError m" if "int2char (format_of F_ISBN10) n = Inl e'" for n e'
      using that by (rule format_of_wf(2))
    show "c \<noteq> []" if "int2char (format_of F_ISBN10) n = Inr c" for n c
      using that by (rule format_of_wf(3))
  qed
next
  case (Inr pc)
  with assms(2) have "ISBN13 (''978-'' @ butlast (code_s pc) @ ''*'') = Inl e"
    by (simp add: ISBN10_def ISBN10_as13_def split: sum.splits)
  moreover have "''978-'' @ butlast (code_s pc) @ ''*'' \<noteq> []" by simp
  ultimately show ?thesis by (rule ISBN13_kind [rotated])
qed

lemma ISMN_kind:
  assumes "str \<noteq> []" and "ISMN str = Inl e"
  shows "\<exists>m. e = ProductCodeError m"
proof (cases "ProductCode_init ISMN_format str")
  case (Inl e')
  with assms(2) have "e' = e" by (simp add: ISMN_def)
  with Inl have "ProductCode_init (format_of F_ISMN) str = Inl e" by simp
  then show ?thesis
  proof (rule ProductCode_init_kind [rotated 4])
    show "str \<noteq> []" by (rule assms(1))
    show "weights (format_of F_ISMN) \<noteq> []" by (rule format_of_wf(1))
    show "\<exists>m. e' = ProductCodeError m" if "int2char (format_of F_ISMN) n = Inl e'" for n e'
      using that by (rule format_of_wf(2))
    show "c \<noteq> []" if "int2char (format_of F_ISMN) n = Inr c" for n c
      using that by (rule format_of_wf(3))
  qed
next
  case (Inr pc)
  with assms(2) have "ISMN13 (''979-0'' @ butlast (tl (code_s pc)) @ ''*'') = Inl e"
    by (simp add: ISMN_def ISMN_as13_def split: sum.splits)
  moreover have "''979-0'' @ butlast (tl (code_s pc)) @ ''*'' \<noteq> []" by simp
  ultimately show ?thesis by (rule ISMN13_kind [rotated])
qed

lemma ISBN10_as13_again:
  assumes "ISBN10 str = Inr rval"
  shows "\<exists>pc13. ISBN10_as13 rval = Inr pc13 \<and> bits rval = bits pc13"
  using assms by (auto simp: ISBN10_def ISBN10_as13_def split: sum.splits)

subsection \<open>The dispatcher\<close>

lemma attempt_cases:
  assumes "\<And>e. r = Inl e \<Longrightarrow> \<exists>m. e = ProductCodeError m"
  obtains (ok) c where "r = Inr c" | (failed) m where "r = Inl (ProductCodeError m)"
  using assms by (cases r) auto

lemma EAN13_kind:
  assumes "str \<noteq> []" and "EAN13 str = Inl e"
  shows "\<exists>m. e = ProductCodeError m"
  using assms unfolding EAN13_def by (rule EAN13_init_kind)

lemma ISBN13_result:
  assumes "str \<noteq> []"
  obtains (ok) c where "ISBN13 str = Inr c" | (failed) m where "ISBN13 str = Inl (ProductCodeError m)"
  using ISBN13_kind [OF assms] by (rule attempt_cases)

lemma ISBN10_result:
  assumes "str \<noteq> []"
  obtains (ok) c where "ISBN10 str = Inr c" | (failed) m where "ISBN10 str = Inl (ProductCodeError m)"
  using ISBN10_kind [OF assms] by (rule attempt_cases)

lemma ISMN_result:
  assumes "str \<noteq> []"
  obtains (ok) c where "ISMN str = Inr c" | (failed) m where "ISMN str = Inl (ProductCodeError m)"
  using ISMN_kind [OF assms] by (rule attempt_cases)

lemma EAN13_result:
  assumes "str \<noteq> []"
  obtains (ok) c where "EAN13 str = Inr c" | (failed) m where "EAN13 str = Inl (ProductCodeError m)"
  using EAN13_kind [OF assms] by (rule attempt_cases)

lemma ProductCodeError_init_None: "ProductCodeError_init None msgs = msgs"
  by (simp add: ProductCodeError_init_def)

text \<open>
  Claim C4 fails at the empty string: no format succeeds on it, and the dispatcher raises
  the \<^verbatim>\<open>IndexError\<close> of the first attempt, not the error without a message.
\<close>

theorem C4_empty_string_counterexample:
  "first_success (attempts_in_order []) = Inl (ProductCodeError None)
   \<and> fst (makeProductCode [] True False []) = Inl IndexError"
  by (simp add: EAN13_def ISBN13_def ISBN10_def ISMN_def makeProductCode_def
      EAN13_init_empty ProductCode_init_empty attempts_in_order_def first_success_def
      then_as13_def)

text \<open>
  Claim C4, amended: for a non-empty string and the default flags the dispatcher returns
  the result of the first attempt that succeeds among ISBN13, ISBN10 followed by its
  conversion to ISBN13, ISMN and EAN13, in this order, and raises the error without a
  message when none succeeds; the messages of the attempts that failed before are appended
  to the shared list, in their order. With \<open>forceISMN13\<close> set it raises
  \<^verbatim>\<open>there is no ISMN13 yet.\<close> for every string and both values of the other flag.
\<close>

theorem C4_dispatcher_priority_order:
  assumes "str \<noteq> []"
  shows "makeProductCode str True False msgs =
           (first_success (attempts_in_order str),
            foldl (\<lambda>ms r. raised r ms) msgs (takeWhile isl (attempts_in_order str)))
         \<and> makeProductCode any forceISBN13 True msgs =
             (Inl (ProductCodeError (Some (Text ''there is no ISMN13 yet.''))),
              msgs @ [Text ''there is no ISMN13 yet.''])"
proof
  show "makeProductCode any forceISBN13 True msgs =
             (Inl (ProductCodeError (Some (Text ''there is no ISMN13 yet.''))),
              msgs @ [Text ''there is no ISMN13 yet.''])"
    by (simp add: makeProductCode_def ProductCodeError_init_def)
  note defs = makeProductCode_def try_ISBN10_def try_ISMN_def try_EAN13_def
    attempts_in_order_def first_success_def ProductCodeError_init_None
  show "makeProductCode str True False msgs =
           (first_success (attempts_in_order str),
            foldl (\<lambda>ms r. raised r ms) msgs (takeWhile isl (attempts_in_order str)))"
  proof (cases rule: ISBN13_result [OF assms, case_names ok failed])
    case (ok c)
    then show ?thesis by (simp add: defs)
  next
    case r1: (failed m1)
    show ?thesis
    proof (cases rule: ISBN10_result [OF assms, case_names ok failed])
      case (ok rval)
      from ISBN10_as13_again [OF ok] obtain pc13 where "ISBN10_as13 rval = Inr pc13" by auto
      with r1 ok show ?thesis by (simp add: defs then_as13_def)
    next
      case r2: (failed m2)
      show ?thesis
      proof (cases rule: ISMN_result [OF assms, case_names ok failed])
        case (ok c)
        with r1 r2 show ?thesis by (simp add: defs then_as13_def)
      next
        case r3: (failed m3)
        show ?thesis
        proof (cases rule: EAN13_result [OF assms, case_names ok failed])
          case (ok c)
          with r1 r2 r3 show ?thesis by (simp add: defs then_as13_def)
        next
          case (failed m4)
          with r1 r2 r3 show ?thesis by (simp add: defs then_as13_def)
        qed
      qed
    qed
  qed
qed

theorem C4_dispatcher_witness:
  "''0-9669553-0-7'' \<noteq> []
   \<and> map_sum id code_s (fst (makeProductCode ''0-9669553-0-7'' True False []))
       = Inr ''978-0-9669553-0-9''
   \<and> snd (makeProductCode ''0-9669553-0-7'' True False [])
       = [Text ''ISBN13: wrong number of digits'']
   \<and> ''12345'' \<noteq> []
   \<and> makeProductCode ''12345'' True False []
       = (Inl (ProductCodeError None),
          [Text ''ISBN13: wrong number of digits'', Text ''ISBN10: wrong number of digits'',
           InvalidHere ''ISMN'' CHR ''1'', Text ''EAN13: wrong number of digits''])
   \<and> makeProductCode ''12345'' False True []
       = (Inl (ProductCodeError (Some (Text ''there is no ISMN13 yet.''))),
          [Text ''there is no ISMN13 yet.''])"
proof -
  have ne: "''0-9669553-0-7'' \<noteq> []" "''12345'' \<noteq> []" by simp_all
  have a1: "map_sum id code_s (first_success (attempts_in_order ''0-9669553-0-7''))
       = Inr ''978-0-9669553-0-9''"
    by code_simp
  have a2: "foldl (\<lambda>ms r. raised r ms) [] (takeWhile isl (attempts_in_order ''0-9669553-0-7''))
       = [Text ''ISBN13: wrong number of digits'']"
    by code_simp
  have b1: "first_success (attempts_in_order ''12345'') = Inl (ProductCodeError None)"
    by code_simp
  have b2: "foldl (\<lambda>ms r. raised r ms) [] (takeWhile isl (attempts_in_order ''12345''))
       = [Text ''ISBN13: wrong number of digits'', Text ''ISBN10: wrong number of digits'',
           InvalidHere ''ISMN'' CHR ''1'', Text ''EAN13: wrong number of digits'']"
    by code_simp
  note t = C4_dispatcher_priority_order [OF ne(1), of "[]" "''12345''" False]
  from t have a: "makeProductCode ''0-9669553-0-7'' True False []
       = (first_success (attempts_in_order ''0-9669553-0-7''),
          foldl (\<lambda>ms r. raised r ms) [] (takeWhile isl (attempts_in_order ''0-9669553-0-7'')))"
    by (elim conjE)
  from t have c: "makeProductCode ''12345'' False True []
       = (Inl (ProductCodeError (Some (Text ''there is no ISMN13 yet.''))),
          [] @ [Text ''there is no ISMN13 yet.''])"
    by (elim conjE)
  from C4_dispatcher_priority_order [OF ne(2), of "[]" "''12345''" False]
  have b: "makeProductCode ''12345'' True False []
       = (first_success (attempts_in_order ''12345''),
          foldl (\<lambda>ms r. raised r ms) [] (takeWhile isl (attempts_in_order ''12345'')))"
    by (elim conjE)
  have a1': "map_sum id code_s (fst (makeProductCode ''0-9669553-0-7'' True False []))
       = Inr ''978-0-9669553-0-9''"
    by (simp only: a fst_conv a1)
  have a2': "snd (makeProductCode ''0-9669553-0-7'' True False [])
       = [Text ''ISBN13: wrong number of digits'']"
    by (simp only: a snd_conv a2)
  have b': "makeProductCode ''12345'' True False []
       = (Inl (ProductCodeError None),
          [Text ''ISBN13: wrong number of digits'', Text ''ISBN10: wrong number of digits'',
           InvalidHere ''ISMN'' CHR ''1'', Text ''EAN13: wrong number of digits''])"
    by (simp only: b b1 b2)
  have c': "makeProductCode ''12345'' False True []
       = (Inl (ProductCodeError (Some (Text ''there is no ISMN13 yet.''))),
          [Text ''there is no ISMN13 yet.''])"
    by (simp only: c append_Nil)
  from ne a1' a2' b' c' show ?thesis by (intro conjI)
qed

subsection \<open>Parsing a normalized string again\<close>

lemma UPC_otherCharMap_dom:
  assumes "map_of UPC_otherCharMap c = Some val"
  shows "(c = CHR ''*'' \<and> val = NoneV) \<or> (c = CHR ''-'' \<and> val = StrV ''-'')
       \<or> (\<exists>d. 0 \<le> d \<and> d \<le> 9 \<and> c = digit_char d \<and> val = IntV d)"
proof (cases "c = CHR ''*''")
  case True
  with assms show ?thesis by (simp add: UPC_otherCharMap_def makeCharMap_def)
next
  case star: False
  show ?thesis
  proof (cases "c = CHR ''-''")
    case True
    with assms show ?thesis by (simp add: UPC_otherCharMap_def makeCharMap_def)
  next
    case False
    with star assms have "map_of digitMap c = Some val"
      by (simp add: UPC_otherCharMap_def makeCharMap_def)
    from digitMap_Some [OF this] show ?thesis by blast
  qed
qed

lemma UPC_otherCharMap_digit:
  assumes "0 \<le> d" "d \<le> 9"
  shows "map_of UPC_otherCharMap (digit_char d) = Some (IntV d)"
  using digit_char_plain [OF assms] digitMap_digit_char [OF assms]
  by (simp add: UPC_otherCharMap_def makeCharMap_def)

lemma UPC_first_other:
  "map_of UPC_firstCharMap c = Some val \<Longrightarrow> map_of UPC_otherCharMap c = Some val"
  by (cases "c = CHR ''*''"; cases "c = CHR ''-''")
     (auto simp: UPC_firstCharMap_def UPC_otherCharMap_def makeCharMap_def digitMap_def)

lemma upper_char_plain:
  "upper_char (CHR ''*'') = CHR ''*''" "upper_char (CHR ''-'') = CHR ''-''"
  by (simp_all add: upper_char_def)

lemma UPC_otherCharMap_upper:
  assumes "map_of UPC_otherCharMap c = Some val"
  shows "upper_char c = c"
  using UPC_otherCharMap_dom [OF assms] digit_char_plain upper_char_plain by (elim disjE exE conjE) simp_all

lemma parse_other_dom:
  "parse_other m cs = Inr ds \<Longrightarrow> c \<in> set cs \<Longrightarrow> \<exists>val. map_of m c = Some val"
proof (induction cs arbitrary: ds)
  case Nil
  then show ?case by simp
next
  case (Cons a cs)
  then show ?case by (auto split: option.splits sum.splits)
qed

lemma parse_other_upper:
  assumes "parse_other UPC_otherCharMap cs = Inr ds"
  shows "upper cs = cs"
proof -
  have "upper_char c = c" if "c \<in> set cs" for c
    using parse_other_dom [OF assms that] UPC_otherCharMap_upper by blast
  then show ?thesis unfolding upper_def by (simp add: map_idI)
qed

lemma parse_other_append:
  "parse_other m (xs @ ys)
     = (case parse_other m xs of
          Inl e \<Rightarrow> Inl e
        | Inr ds \<Rightarrow> (case parse_other m ys of Inl e \<Rightarrow> Inl e | Inr es \<Rightarrow> Inr (ds @ es)))"
  by (induction xs) (auto split: option.splits sum.splits)

text \<open>Substituting a digit for the wildcard characters fills the wildcard slots.\<close>

lemma parse_other_filled:
  assumes v: "0 \<le> v" "v \<le> 9"
  shows "parse_other UPC_otherCharMap cs = Inr D \<Longrightarrow>
     parse_other UPC_otherCharMap (map (\<lambda>x. if x = CHR ''*'' then digit_char v else x) cs)
       = Inr (map (\<lambda>d. Some (case_option v id d)) D)"
proof (induction cs arbitrary: D)
  case Nil
  then show ?case by simp
next
  case (Cons c cs)
  from Cons.prems obtain val D' where val: "map_of UPC_otherCharMap c = Some val"
    and D': "parse_other UPC_otherCharMap cs = Inr D'" and D: "D = keep val @ D'"
    by (auto split: option.splits sum.splits)
  note IH = Cons.IH [OF D']
  from UPC_otherCharMap_dom [OF val] show ?case
  proof (elim disjE exE conjE)
    assume "c = CHR ''*''" "val = NoneV"
    with IH D UPC_otherCharMap_digit [OF v] show ?thesis by simp
  next
    assume "c = CHR ''-''" "val = StrV ''-''"
    with IH D val show ?thesis by simp
  next
    fix d assume "0 \<le> d" "d \<le> 9" and c: "c = digit_char d" and "val = IntV d"
    with digit_char_plain [of d] IH D val show ?thesis by simp
  qed
qed

subsection \<open>The conversion of an ISBN-10\<close>

lemma ISBN10_lastCharMap_dom:
  assumes "map_of (lastCharMap ISBN10_format) c = Some val"
  shows "length (keep val) = 1"
proof -
  consider "c = CHR ''*''" | "c = CHR ''X''" | "c = CHR ''x''"
    | "c \<noteq> CHR ''*''" "c \<noteq> CHR ''X''" "c \<noteq> CHR ''x''" by blast
  then show ?thesis
  proof cases
    case 4
    with assms have "map_of digitMap c = Some val" by (simp add: ISBN10_format_def makeCharMap_def)
    from digitMap_Some [OF this] show ?thesis by auto
  qed (use assms in \<open>auto simp: ISBN10_format_def makeCharMap_def\<close>)
qed

lemma ISBN10_format_simps:
  "firstCharMap ISBN10_format = UPC_firstCharMap"
  "otherCharMap ISBN10_format = UPC_otherCharMap"
  "length (weights ISBN10_format) = 10"
  "int2char ISBN10_format = int2char_ISBN10 ''ISBN10''"
  "magic ISBN10_format = 11" "ftype ISBN10_format = ''ISBN10''"
  by (simp_all add: ISBN10_format_def UPC_firstCharMap_def UPC_otherCharMap_def)

lemma fill_wild:
  "map (\<lambda>d. Some (case_option v id d)) (map Some pre @ None # map Some post)
     = map Some (pre @ v # post)"
  by simp

lemma fill_no_wild: "None \<notin> set D \<Longrightarrow> map (\<lambda>d. Some (case_option v id d)) D = D"
proof (induction D)
  case Nil
  then show ?case by simp
next
  case (Cons a D)
  then show ?case by (cases a) simp_all
qed

lemma resolveChecksum_fill:
  assumes "resolveChecksum f ds0 = Inr (ds, i)"
  shows "\<exists>w. 0 \<le> w \<and> w \<le> 9 \<and> ds = map (\<lambda>d. Some (case_option w id d)) ds0 \<and> (i = None \<or> i = Some w)"
  using assms
proof (cases rule: resolveChecksum_cases)
  case (none dl)
  then have "ds = map (\<lambda>d. Some (case_option 0 id d)) ds0" by simp
  with none show ?thesis by auto
next
  case (wild pre post v)
  from wild(1,2) have "ds = map (\<lambda>d. Some (case_option v id d)) ds0" by simp
  with wild(3,4,6) show ?thesis by auto
qed

text \<open>
  The string handed over by \<^verbatim>\<open>ISBN10.as13\<close> holds, between the prefix and the wildcard,
  the characters of the first nine digits of the ISBN-10.
\<close>

lemma ISBN10_butlast_digits:
  assumes init: "ProductCode_init ISBN10_format str = Inr pc"
    and X: "parse_other UPC_otherCharMap (butlast (code_s pc)) = Inr X" and noNone: "None \<notin> set X"
  shows "X = take 9 (digits pc)"
proof -
  from init obtain ds0 i where
    p: "parse str UPC_firstCharMap (lastCharMap ISBN10_format) UPC_otherCharMap = Inr ds0"
    and r: "resolveChecksum ISBN10_format ds0 = Inr (digits pc, i)"
    and cs: "(i = None \<and> code_s pc = upper str)
       \<or> (\<exists>n c. i = Some n \<and> int2char_ISBN10 ''ISBN10'' n = Inr c \<and> code_s pc = sub_star c (upper str))"
    and rc: "realityCheck ISBN10_format (digits pc) (code_s pc) = Inr ()"
    by (rule ProductCode_init_Inr) (simp add: ISBN10_format_simps)
  from realityCheck_Inr_length [OF rc] have len: "length (digits pc) = 10"
    by (simp add: ISBN10_format_simps)
  from resolveChecksum_fill [OF r] obtain w where w: "0 \<le> w" "w \<le> 9"
    and ds: "digits pc = map (\<lambda>d. Some (case_option w id d)) ds0" and i: "i = None \<or> i = Some w"
    by blast
  from ds len have len0: "length ds0 = 10" by simp
  from p obtain d0 mid dl where ne: "str \<noteq> []" and d0: "map_of UPC_firstCharMap (hd str) = Some d0"
    and mid: "parse_other UPC_otherCharMap (butlast (tl str)) = Inr mid"
    and dl: "map_of (lastCharMap ISBN10_format) (last str) = Some dl" and ds0: "ds0 = keep d0 @ mid @ keep dl"
    unfolding parse_Inr_iff by blast
  have len2: "2 \<le> length str"
  proof (rule ccontr)
    assume "\<not> 2 \<le> length str"
    with ne have "butlast (tl str) = []" by (cases str) (auto simp: not_le Suc_le_eq)
    with mid have "mid = []" by simp
    with ds0 length_keep [of d0] length_keep [of dl] have "length ds0 \<le> 2" by simp
    with len0 show False by simp
  qed
  define P where "P = hd str # butlast (tl str)"
  define D where "D = keep d0 @ mid"
  from split_first_last [OF len2] have str: "str = P @ [last str]" by (simp add: P_def)
  from UPC_first_other [OF d0] mid have D: "parse_other UPC_otherCharMap P = Inr D"
    by (simp add: P_def D_def)
  from ISBN10_lastCharMap_dom [OF dl] ds0 len0 have lenD: "length D = 9" and ds0': "ds0 = D @ keep dl"
    by (simp_all add: D_def)
  from ds ds0' lenD have take9: "take 9 (digits pc) = map (\<lambda>d. Some (case_option w id d)) D"
    by simp
  from parse_other_upper [OF D] have up: "upper P = P" .
  from str have upstr: "upper str = P @ [upper_char (last str)]"
    using up by (metis (no_types) list.simps(8,9) map_append upper_def)
  from cs show ?thesis
  proof (elim disjE exE conjE)
    assume "i = None" and c: "code_s pc = upper str"
    from c upstr have "butlast (code_s pc) = P" by simp
    with X D have "X = D" by simp
    with noNone take9 show ?thesis by (simp add: fill_no_wild)
  next
    fix n c assume n: "i = Some n" and c: "int2char_ISBN10 ''ISBN10'' n = Inr c"
      and s: "code_s pc = sub_star c (upper str)"
    from n i have "n = w" by simp
    with c w have "c = [digit_char w]" by (simp add: int2char_ISBN10_digit)
    with s upstr have "butlast (code_s pc) = map (\<lambda>x. if x = CHR ''*'' then digit_char w else x) P"
      by (simp add: sub_star_map)
    with X parse_other_filled [OF w D] have "X = map (\<lambda>d. Some (case_option w id d)) D" by simp
    with take9 show ?thesis by simp
  qed
qed

end
